theory Spec2Isabelle
  imports Main "HOL-Library.Word"
begin

section \<open>Failures\<close>

text \<open>
  Both classes signal errors with \<^verbatim>\<open>throw new std::out_of_range(...)\<close>, and
  \<^verbatim>\<open>unordered_map::at\<close> throws \<^verbatim>\<open>std::out_of_range\<close> itself: \<open>OutOfRange\<close>.
  Unchecked vector indexing out of bounds, a null dereference, reading through an
  end iterator, division by zero and pointer arithmetic leaving a string literal have no
  defined behaviour in C++: \<open>Undefined\<close>.
\<close>

datatype failure = OutOfRange | Undefined

text \<open>
  The messages are built as \<^verbatim>\<open>"literal" + n\<close>, which is pointer arithmetic on the
  literal: defined only while the pointer stays inside the literal (its characters and the
  terminating zero), where it yields a suffix of the message.
\<close>

definition throw_msg :: "nat \<Rightarrow> int \<Rightarrow> failure" where
  "throw_msg len n = (if 0 \<le> n \<and> n \<le> int len then OutOfRange else Undefined)"

text \<open>\<^verbatim>\<open>size_t\<close> is 64 bits wide; subtraction and addition wrap.\<close>

definition sz_sub :: "nat \<Rightarrow> nat \<Rightarrow> nat" where
  "sz_sub a b = (if b \<le> a then a - b else a + 2 ^ 64 - b)"

definition sz_add :: "nat \<Rightarrow> nat \<Rightarrow> nat" where
  "sz_add a b = (a + b) mod 2 ^ 64"

section \<open>VersionTree (version\_tree.h)\<close>

text \<open>
  The header declares the two static constants \<^verbatim>\<open>NONE_VERSION\<close> and
  \<^verbatim>\<open>OVERFLOW_THRESHOLD_BASE\<close> but their definitions are not among the sources, so
  the model takes them as parameters. The base is used in one place only, the
  floating-point test \<^verbatim>\<open>rangeDensity < std::pow(OVERFLOW_THRESHOLD_BASE, -rangeSize)\<close>,
  with \<^verbatim>\<open>rangeDensity = (occupied + 0.0) / (rangeEnd - rangeStart)\<close>; the parameter
  \<open>overflow_lt\<close> is that test as a function of the density, kept as the fraction
  (occupied, rangeEnd - rangeStart), and of rangeSize.
\<close>

record config =
  NONE_VERSION :: int
  overflow_lt :: "nat \<times> nat \<Rightarrow> nat \<Rightarrow> bool"

text \<open>
  A \<^verbatim>\<open>Node\<close> of the event list carries a version and a label, but the label field is
  never written or read (constructors and comparison use the version only), so an event is
  its version key. \<^verbatim>\<open>long\<close> versions are integers (the negation \<^verbatim>\<open>-1 * version\<close>
  overflows for the least \<^verbatim>\<open>long\<close> only), \<^verbatim>\<open>size_t\<close> labels are
  naturals below \<open>2 ^ 64\<close>. \<open>labelsNumber\<close> is the size of a live
  \<^verbatim>\<open>vector<long>\<close>, far below \<open>2 ^ 63\<close>, so doubling it and multiplying window
  numbers by window sizes do not wrap; the resize is taken to succeed.
\<close>

record vtree =
  events :: "int list"
  labelsNumber :: nat
  labelToVersion :: "int list"
  versionToLabel :: "int \<rightharpoonup> nat"

definition getLabel :: "vtree \<Rightarrow> int \<Rightarrow> failure + nat" where
  "getLabel t version =
     (case versionToLabel t version of None \<Rightarrow> Inl OutOfRange | Some l \<Rightarrow> Inr l)"

text \<open>\<^verbatim>\<open>_labelsNumber - 1\<close> in \<^verbatim>\<open>size_t\<close>.\<close>

definition lastLabel :: "vtree \<Rightarrow> nat" where
  "lastLabel t = sz_sub (labelsNumber t) 1"

definition init :: "config \<Rightarrow> vtree \<Rightarrow> failure + vtree" where
  "init c t =
     (let ev = events t @ [0, NONE_VERSION c];
          l2v = labelToVersion t
      in if 0 < length l2v \<and> lastLabel t < length l2v
         then Inr (t\<lparr>events := ev,
                     labelToVersion := (l2v[0 := 0])[lastLabel t := NONE_VERSION c],
                     versionToLabel := (versionToLabel t)(0 \<mapsto> 0, NONE_VERSION c \<mapsto> lastLabel t)\<rparr>)
         else Inl Undefined)"

text \<open>The constructor \<^verbatim>\<open>VersionTree()\<close>.\<close>

definition VersionTree :: "config \<Rightarrow> failure + vtree" where
  "VersionTree c =
     init c \<lparr>events = [], labelsNumber = 2,
             labelToVersion = replicate 2 (NONE_VERSION c), versionToLabel = Map.empty\<rparr>"

text \<open>
  The assignment loops of \<^verbatim>\<open>_relabelRange\<close> and \<^verbatim>\<open>_relabelAll\<close>:
  \<^verbatim>\<open>for (i = start; i < limit; i += step) { if (rangeVersions.empty()) break; ... }\<close>.
  Every round pops one version.
\<close>

fun place :: "int list \<Rightarrow> nat \<Rightarrow> nat \<Rightarrow> nat \<Rightarrow> int list \<times> (int \<rightharpoonup> nat)
    \<Rightarrow> int list \<times> (int \<rightharpoonup> nat)" where
  "place [] i limit step (l2v, v2l) = (l2v, v2l)"
| "place (version # rangeVersions) i limit step (l2v, v2l) =
     (if i < limit
      then place rangeVersions (i + step) limit step (l2v[i := version], v2l(version \<mapsto> i))
      else (l2v, v2l))"

definition occupants :: "config \<Rightarrow> vtree \<Rightarrow> nat \<Rightarrow> nat \<Rightarrow> int list" where
  "occupants c t rangeStart rangeEnd =
     filter (\<lambda>v. v \<noteq> NONE_VERSION c)
       (take (rangeEnd - rangeStart) (drop rangeStart (labelToVersion t)))"

definition getRangeDensity :: "config \<Rightarrow> vtree \<Rightarrow> nat \<Rightarrow> nat \<Rightarrow> failure + nat \<times> nat" where
  "getRangeDensity c t rangeStart rangeEnd =
     (if rangeEnd \<le> length (labelToVersion t)
      then Inr (length (occupants c t rangeStart rangeEnd), rangeEnd - rangeStart)
      else Inl Undefined)"

definition fill :: "int list \<Rightarrow> nat \<Rightarrow> nat \<Rightarrow> int \<Rightarrow> int list" where
  "fill xs rangeStart rangeEnd v =
     take rangeStart xs @ replicate (rangeEnd - rangeStart) v @ drop rangeEnd xs"

definition relabelRange :: "config \<Rightarrow> vtree \<Rightarrow> nat \<Rightarrow> nat \<Rightarrow> failure + vtree" where
  "relabelRange c t rangeStart rangeEnd =
     (if rangeEnd \<le> length (labelToVersion t)
      then
        (let rangeVersions = occupants c t rangeStart rangeEnd;
             l2v = fill (labelToVersion t) rangeStart rangeEnd (NONE_VERSION c);
             step = rangeEnd - rangeStart;
             (l2v', v2l') = place rangeVersions rangeStart rangeEnd step (l2v, versionToLabel t)
         in Inr (t\<lparr>labelToVersion := l2v',
                     versionToLabel := v2l'(NONE_VERSION c \<mapsto> lastLabel t)\<rparr>))
      else Inl Undefined)"

definition relabelAll :: "config \<Rightarrow> vtree \<Rightarrow> failure + vtree" where
  "relabelAll c t =
     (let rangeVersions = filter (\<lambda>v. v \<noteq> NONE_VERSION c) (labelToVersion t);
          M = labelsNumber t * 2;
          l2v = replicate M (NONE_VERSION c)
      in if rangeVersions = [] then Inl Undefined
         else
           (let step = M div length rangeVersions;
                (l2v', v2l') = place rangeVersions 0 M step (l2v, versionToLabel t);
                t' = t\<lparr>labelsNumber := M, labelToVersion := l2v', versionToLabel := v2l'\<rparr>
            in Inr (t'\<lparr>versionToLabel := v2l'(NONE_VERSION c \<mapsto> lastLabel t')\<rparr>)))"

text \<open>
  The \<^verbatim>\<open>while (rangeSize <= _labelsNumber)\<close> loop of \<^verbatim>\<open>_relabel\<close>; it returns the
  tree together with the value of \<^verbatim>\<open>rangeSize\<close> on leaving the loop (by \<^verbatim>\<open>break\<close> or by
  the loop condition), which the test after the loop reads.
\<close>

function relabel_loop :: "config \<Rightarrow> vtree \<Rightarrow> nat \<Rightarrow> nat \<Rightarrow> nat \<Rightarrow> failure + vtree \<times> nat" where
  "relabel_loop c t firstLabel secondLabel rangeSize =
     (if rangeSize \<le> labelsNumber t
      then
        (if rangeSize = 0 then Inl Undefined
         else
           (let firstRangeNum = firstLabel div rangeSize;
                secondRangeNum = secondLabel div rangeSize
            in if firstRangeNum = secondRangeNum
               then
                 (let rangeStart = rangeSize * firstRangeNum;
                      rangeEnd = rangeSize * (firstRangeNum + 1)
                  in case getRangeDensity c t rangeStart rangeEnd of
                       Inl e \<Rightarrow> Inl e
                     | Inr rangeDensity \<Rightarrow>
                         if overflow_lt c rangeDensity rangeSize
                         then (case relabelRange c t rangeStart rangeEnd of
                                 Inl e \<Rightarrow> Inl e
                               | Inr t' \<Rightarrow> Inr (t', rangeSize))
                         else relabel_loop c t firstLabel secondLabel (rangeSize * 2))
               else relabel_loop c t firstLabel secondLabel (rangeSize * 2)))
      else Inr (t, rangeSize))"
  by pat_completeness auto
termination
  by (relation "measure (\<lambda>(c, t, firstLabel, secondLabel, rangeSize). labelsNumber t + 1 - rangeSize)")
     auto

definition relabel :: "config \<Rightarrow> vtree \<Rightarrow> nat \<Rightarrow> nat \<Rightarrow> failure + vtree" where
  "relabel c t firstLabel secondLabel =
     (case relabel_loop c t firstLabel secondLabel 2 of
        Inl e \<Rightarrow> Inl e
      | Inr (t', rangeSize) \<Rightarrow>
          if labelsNumber t' \<le> rangeSize then relabelAll c t' else Inr t')"

text \<open>
  \<^verbatim>\<open>_insert(version, prev)\<close>: the iterator \<open>prev\<close> is the index of its node in the event
  list; the returned iterator \<open>pos\<close> is the index of the new node, \<open>prev + 1\<close>. After the
  insertion \<^verbatim>\<open>next\<close> is the node at index \<open>prev + 2\<close>. The source reads
  \<^verbatim>\<open>next->version\<close> before it tests \<^verbatim>\<open>next == _events.end()\<close>; when \<open>prev\<close> is the
  last node that read goes through the end iterator.
\<close>

definition insert_after :: "config \<Rightarrow> vtree \<Rightarrow> int \<Rightarrow> nat \<Rightarrow> failure + vtree \<times> nat" where
  "insert_after c t version prev =
     (case getLabel t (events t ! prev) of
        Inl e \<Rightarrow> Inl e
      | Inr prevLabel \<Rightarrow>
          if length (events t) \<le> prev + 1 then Inl Undefined
          else
            (case getLabel t (events t ! (prev + 1)) of
               Inl e \<Rightarrow> Inl e
             | Inr nextLabel \<Rightarrow>
                 (let t1 = t\<lparr>events := take (prev + 1) (events t) @ version # drop (prev + 1) (events t)\<rparr>;
                      relabelled =
                        (if sz_sub nextLabel prevLabel < 2
                         then
                           (case relabel c t1 prevLabel nextLabel of
                              Inl e \<Rightarrow> Inl e
                            | Inr t2 \<Rightarrow>
                                (case getLabel t2 (events t2 ! prev) of
                                   Inl e \<Rightarrow> Inl e
                                 | Inr prevLabel' \<Rightarrow>
                                     (case getLabel t2 (events t2 ! (prev + 2)) of
                                        Inl e \<Rightarrow> Inl e
                                      | Inr nextLabel' \<Rightarrow> Inr (t2, prevLabel', nextLabel'))))
                         else Inr (t1, prevLabel, nextLabel))
                  in case relabelled of
                       Inl e \<Rightarrow> Inl e
                     | Inr (t2, prevLabel', nextLabel') \<Rightarrow>
                         (let label = sz_add prevLabel' (sz_add (sz_sub nextLabel' prevLabel') 1 div 2)
                          in if label < length (labelToVersion t2)
                             then Inr (t2\<lparr>labelToVersion := (labelToVersion t2)[label := version],
                                          versionToLabel := (versionToLabel t2)(version \<mapsto> label)\<rparr>,
                                       prev + 1)
                             else Inl Undefined))))"

text \<open>The scan of \<^verbatim>\<open>insert\<close> for the first event whose version is the parent.\<close>

fun find_event :: "int list \<Rightarrow> int \<Rightarrow> nat option" where
  "find_event [] parentVersion = None"
| "find_event (e # es) parentVersion =
     (if e = parentVersion then Some 0 else map_option Suc (find_event es parentVersion))"

definition insert_version :: "config \<Rightarrow> vtree \<Rightarrow> int \<Rightarrow> int \<Rightarrow> failure + vtree" where
  "insert_version c t version parentVersion =
     (if events t = [] then Inl OutOfRange
      else
        (case find_event (events t) parentVersion of
           None \<Rightarrow> Inl (throw_msg 44 parentVersion)
         | Some it \<Rightarrow>
             (case insert_after c t version it of
                Inl e \<Rightarrow> Inl e
              | Inr (t1, pos) \<Rightarrow>
                  (case insert_after c t1 (- version) pos of
                     Inl e \<Rightarrow> Inl e
                   | Inr (t2, pos') \<Rightarrow> Inr t2))))"

definition order :: "vtree \<Rightarrow> int \<Rightarrow> int \<Rightarrow> failure + bool" where
  "order t lv rv =
     (case getLabel t lv of
        Inl e \<Rightarrow> Inl e
      | Inr l \<Rightarrow>
          (case getLabel t rv of
             Inl e \<Rightarrow> Inl e
           | Inr r \<Rightarrow>
               if l \<le> r
               then (case getLabel t (- rv) of
                       Inl e \<Rightarrow> Inl e
                     | Inr rc \<Rightarrow>
                         (case getLabel t (- lv) of
                            Inl e \<Rightarrow> Inl e
                          | Inr lc \<Rightarrow> Inr (rc \<le> lc)))
               else Inr False))"

definition empty_tree :: "vtree \<Rightarrow> bool" where
  "empty_tree t = (length (events t) = 2)"

definition size_tree :: "vtree \<Rightarrow> nat" where
  "size_tree t = length (events t) div 2"

definition clear :: "config \<Rightarrow> vtree \<Rightarrow> failure + vtree" where
  "clear c t = init c (t\<lparr>events := []\<rparr>)"

text \<open>A run of \<^verbatim>\<open>insert\<close> calls, each (version, parent), stopping at the first failure.\<close>

fun inserts :: "config \<Rightarrow> vtree \<Rightarrow> (int \<times> int) list \<Rightarrow> failure + vtree" where
  "inserts c t [] = Inr t"
| "inserts c t ((version, parentVersion) # rest) =
     (case insert_version c t version parentVersion of
        Inl e \<Rightarrow> Inl e
      | Inr t' \<Rightarrow> inserts c t' rest)"

definition from_fresh :: "config \<Rightarrow> (int \<times> int) list \<Rightarrow> failure + vtree" where
  "from_fresh c ops = (case VersionTree c of Inl e \<Rightarrow> Inl e | Inr t \<Rightarrow> inserts c t ops)"

text \<open>
  Modelled from the spec: the definition of \<^verbatim>\<open>OVERFLOW_THRESHOLD_BASE\<close> is missing from
  the sources. The spec gives the threshold of a window of size \<open>s\<close> as \<open>T^(-s)\<close> for a
  constant \<open>T\<close> strictly between 1 and 2, typically 1.3. For \<open>T = n / d\<close> the test
  \<open>occupied / width < T^(-s)\<close> is, in exact arithmetic, \<open>occupied * n^s < width * d^s\<close>.
  \<^verbatim>\<open>NONE_VERSION\<close> is taken to be the least \<^verbatim>\<open>long\<close>, as the spec suggests.
\<close>

definition density_below :: "nat \<Rightarrow> nat \<Rightarrow> nat \<times> nat \<Rightarrow> nat \<Rightarrow> bool" where
  "density_below n d rangeDensity rangeSize =
     (fst rangeDensity * n ^ rangeSize < snd rangeDensity * d ^ rangeSize)"

definition base_config :: "nat \<Rightarrow> nat \<Rightarrow> config" where
  "base_config n d = \<lparr>NONE_VERSION = - (2 ^ 63), overflow_lt = density_below n d\<rparr>"

text \<open>Observations of the tree reached from a fresh one by a run of insertions.\<close>

definition events_after :: "config \<Rightarrow> (int \<times> int) list \<Rightarrow> failure + int list" where
  "events_after c ops = (case from_fresh c ops of Inl e \<Rightarrow> Inl e | Inr t \<Rightarrow> Inr (events t))"

definition order_after :: "config \<Rightarrow> (int \<times> int) list \<Rightarrow> int \<Rightarrow> int \<Rightarrow> failure + bool" where
  "order_after c ops lv rv = (case from_fresh c ops of Inl e \<Rightarrow> Inl e | Inr t \<Rightarrow> order t lv rv)"

text \<open>The labels read along the event list, and the label table with its capacity.\<close>

definition labels_after :: "config \<Rightarrow> (int \<times> int) list \<Rightarrow> failure + nat option list" where
  "labels_after c ops =
     (case from_fresh c ops of Inl e \<Rightarrow> Inl e | Inr t \<Rightarrow> Inr (map (versionToLabel t) (events t)))"

definition table_after :: "config \<Rightarrow> (int \<times> int) list \<Rightarrow> failure + nat \<times> int list" where
  "table_after c ops =
     (case from_fresh c ops of Inl e \<Rightarrow> Inl e | Inr t \<Rightarrow> Inr (labelsNumber t, labelToVersion t))"

text \<open>\<^verbatim>\<open>operator==\<close> compares the four members.\<close>

definition tree_eq :: "vtree \<Rightarrow> vtree \<Rightarrow> bool" where
  "tree_eq t u =
     (events t = events u \<and> labelsNumber t = labelsNumber u
      \<and> labelToVersion t = labelToVersion u \<and> versionToLabel t = versionToLabel u)"

definition cleared_after :: "config \<Rightarrow> (int \<times> int) list \<Rightarrow> failure + vtree" where
  "cleared_after c ops = (case from_fresh c ops of Inl e \<Rightarrow> Inl e | Inr t \<Rightarrow> clear c t)"

section \<open>PersistentList (persistent\_list.hpp)\<close>

text \<open>
  Nodes live in a store and \<^verbatim>\<open>shared_ptr<Node>\<close> is an address or null. The counter
  \<open>fresh\<close> is the next unused address: \<^verbatim>\<open>make_shared\<close> allocates there. Reference
  counting keeps every node alive that a version or an iterator can reach, so a pointer
  never dangles and releasing unreachable nodes is not modelled. A pointer the store does
  not hold cannot arise in the source; the model answers \<open>Undefined\<close> for it.
\<close>

type_synonym addr = nat

type_synonym iterator = "addr option"

record 'a Node =
  val :: 'a
  nxt :: "addr option"

record Version =
  root :: "addr option"
  vsize :: "64 word"

record 'a plist =
  heap :: "addr \<rightharpoonup> 'a Node"
  fresh :: addr
  versions :: "Version list"

definition make_shared :: "'a plist \<Rightarrow> 'a \<Rightarrow> 'a plist \<times> addr" where
  "make_shared s v =
     (s\<lparr>heap := (heap s)(fresh s \<mapsto> \<lparr>val = v, nxt = None\<rparr>), fresh := Suc (fresh s)\<rparr>, fresh s)"

text \<open>\<^verbatim>\<open>p->next = n\<close>; the source only assigns through pointers to nodes it has just made.\<close>

definition set_next :: "'a plist \<Rightarrow> addr \<Rightarrow> addr option \<Rightarrow> 'a plist" where
  "set_next s p n =
     (case heap s p of None \<Rightarrow> s | Some nd \<Rightarrow> s\<lparr>heap := (heap s)(p \<mapsto> nd\<lparr>nxt := n\<rparr>)\<rparr>)"

definition push_version :: "'a plist \<Rightarrow> Version \<Rightarrow> 'a plist" where
  "push_version s d = s\<lparr>versions := versions s @ [d]\<rparr>"

text \<open>The constructor \<^verbatim>\<open>PersistentList()\<close>.\<close>

definition PersistentList :: "'a plist" where
  "PersistentList = \<lparr>heap = Map.empty, fresh = 0, versions = [\<lparr>root = None, vsize = 0\<rparr>]\<rparr>"

subsection \<open>ListIterator\<close>

definition list_end :: iterator where
  "list_end = None"

definition it_incr :: "(addr \<rightharpoonup> 'a Node) \<Rightarrow> iterator \<Rightarrow> failure + iterator" where
  "it_incr h it =
     (case it of
        None \<Rightarrow> Inr None
      | Some a \<Rightarrow> (case h a of None \<Rightarrow> Inl Undefined | Some nd \<Rightarrow> Inr (nxt nd)))"

definition it_deref :: "(addr \<rightharpoonup> 'a Node) \<Rightarrow> iterator \<Rightarrow> failure + 'a" where
  "it_deref h it =
     (case it of
        None \<Rightarrow> Inl OutOfRange
      | Some a \<Rightarrow> (case h a of None \<Rightarrow> Inl Undefined | Some nd \<Rightarrow> Inr (val nd)))"

subsection \<open>Queries\<close>

text \<open>\<^verbatim>\<open>begin\<close>, \<^verbatim>\<open>empty\<close> and \<^verbatim>\<open>size\<close> index the registry unchecked.\<close>

definition list_begin :: "'a plist \<Rightarrow> nat \<Rightarrow> failure + iterator" where
  "list_begin s srcVersion =
     (if srcVersion < length (versions s) then Inr (root (versions s ! srcVersion))
      else Inl Undefined)"

definition list_empty :: "'a plist \<Rightarrow> nat \<Rightarrow> failure + bool" where
  "list_empty s srcVersion =
     (if srcVersion < length (versions s) then Inr (vsize (versions s ! srcVersion) = 0)
      else Inl Undefined)"

definition list_size :: "'a plist \<Rightarrow> nat \<Rightarrow> failure + 64 word" where
  "list_size s srcVersion =
     (if srcVersion < length (versions s) then Inr (vsize (versions s ! srcVersion))
      else Inl Undefined)"

definition versionsNumber :: "'a plist \<Rightarrow> nat" where
  "versionsNumber s = length (versions s)"

definition list_clear :: "'a plist \<Rightarrow> 'a plist" where
  "list_clear s = s\<lparr>versions := []\<rparr>"

definition list_front :: "'a plist \<Rightarrow> nat \<Rightarrow> failure + 'a" where
  "list_front s srcVersion =
     (if versions s = [] then Inl OutOfRange
      else if length (versions s) \<le> srcVersion then Inl Undefined
      else
        (case root (versions s ! srcVersion) of
           None \<Rightarrow> Inl (throw_msg 23 (int srcVersion))
         | Some r \<Rightarrow> (case heap s r of None \<Rightarrow> Inl Undefined | Some nd \<Rightarrow> Inr (val nd))))"

text \<open>The loop \<^verbatim>\<open>while (cur->next) cur = cur->next;\<close> of \<^verbatim>\<open>back\<close>, then \<^verbatim>\<open>cur->value\<close>.\<close>

partial_function (option) back_loop :: "(addr \<rightharpoonup> 'a Node) \<Rightarrow> addr \<Rightarrow> (failure + 'a) option" where
  "back_loop h cur =
     (case h cur of
        None \<Rightarrow> Some (Inl Undefined)
      | Some nd \<Rightarrow> (case nxt nd of None \<Rightarrow> Some (Inr (val nd)) | Some n \<Rightarrow> back_loop h n))"

definition list_back :: "'a plist \<Rightarrow> nat \<Rightarrow> (failure + 'a) option" where
  "list_back s srcVersion =
     (if versions s = [] then Some (Inl OutOfRange)
      else if length (versions s) \<le> srcVersion then Some (Inl Undefined)
      else
        (case root (versions s ! srcVersion) of
           None \<Rightarrow> Some (Inl (throw_msg 23 (int srcVersion)))
         | Some r \<Rightarrow> back_loop (heap s) r))"

subsection \<open>Mutators\<close>

text \<open>
  A mutator returns \<open>None\<close> when it loops forever, \<open>Some (Inl e)\<close> when it fails (the list
  is then as it was: the nodes made so far are released with their last pointer), and
  \<open>Some (Inr r)\<close> when it returns.

  The path-copy loop shared by \<^verbatim>\<open>insert\<close> and \<^verbatim>\<open>erase\<close>,
  \<^verbatim>\<open>while (curOldIt != pos) { ... }\<close>. The pointer \<^verbatim>\<open>curOld\<close> and the iterator
  \<^verbatim>\<open>curOldIt\<close> start at the root and advance together, so one cursor stands for both;
  \<open>bgn\<close> is \<^verbatim>\<open>begin(srcVersion)\<close>. In both branches of \<^verbatim>\<open>if (prevNew)\<close> the new
  value of \<^verbatim>\<open>prevNew\<close> is the copy.
\<close>

partial_function (option) copy_until ::
  "'a plist \<Rightarrow> iterator \<Rightarrow> iterator \<Rightarrow> iterator \<Rightarrow> iterator \<Rightarrow> iterator
     \<Rightarrow> (failure + 'a plist \<times> iterator \<times> iterator \<times> iterator) option" where
  "copy_until s bgn pos curOld prevNew copyRoot =
     (if curOld = pos then Some (Inr (s, curOld, prevNew, copyRoot))
      else
        (case it_deref (heap s) curOld of
           Inl e \<Rightarrow> Some (Inl e)
         | Inr v \<Rightarrow>
             (case make_shared s v of
                (s1, copyCur) \<Rightarrow>
                  (case it_incr
                          (heap (case prevNew of None \<Rightarrow> s1 | Some p \<Rightarrow> set_next s1 p (Some copyCur)))
                          curOld of
                     Inl e \<Rightarrow> Some (Inl e)
                   | Inr curNext \<Rightarrow>
                       copy_until
                         (case prevNew of None \<Rightarrow> s1 | Some p \<Rightarrow> set_next s1 p (Some copyCur))
                         bgn pos curNext (Some copyCur)
                         (if curOld = bgn then Some copyCur else copyRoot)))))"

text \<open>The test \<^verbatim>\<open>_versions.size() - 1 < srcVersion\<close>, in \<^verbatim>\<open>size_t\<close>.\<close>

definition invalid_version :: "'a plist \<Rightarrow> nat \<Rightarrow> bool" where
  "invalid_version s srcVersion = (sz_sub (length (versions s)) 1 < srcVersion)"

definition list_insert ::
  "'a plist \<Rightarrow> nat \<Rightarrow> iterator \<Rightarrow> 'a \<Rightarrow> (failure + 'a plist \<times> iterator) option" where
  "list_insert s srcVersion pos x =
     (if invalid_version s srcVersion then Some (Inl (throw_msg 17 (int srcVersion)))
      else if length (versions s) \<le> srcVersion then Some (Inl Undefined)
      else
        (case make_shared s x of
           (s1, newNode) \<Rightarrow>
             (let rt = root (versions s ! srcVersion);
                  sz = vsize (versions s ! srcVersion)
              in if rt = None
                 then Some (Inr (push_version s1 \<lparr>root = Some newNode, vsize = sz + 1\<rparr>,
                                 Some newNode))
                 else if pos = rt
                 then Some (Inr (push_version (set_next s1 newNode rt)
                                   \<lparr>root = Some newNode, vsize = sz + 1\<rparr>,
                                 Some newNode))
                 else
                   (case copy_until s1 rt pos rt None None of
                      None \<Rightarrow> None
                    | Some (Inl e) \<Rightarrow> Some (Inl e)
                    | Some (Inr (s2, curOld, prevNew, copyRoot)) \<Rightarrow>
                        (case prevNew of
                           None \<Rightarrow> Some (Inl Undefined)
                         | Some p \<Rightarrow>
                             Some (Inr
                               (push_version
                                  (set_next (set_next s2 p (Some newNode)) newNode curOld)
                                  \<lparr>root = copyRoot, vsize = sz + 1\<rparr>,
                                Some newNode)))))))"

definition list_erase ::
  "'a plist \<Rightarrow> nat \<Rightarrow> iterator \<Rightarrow> (failure + 'a plist \<times> iterator) option" where
  "list_erase s srcVersion pos =
     (if invalid_version s srcVersion then Some (Inl (throw_msg 17 (int srcVersion)))
      else if length (versions s) \<le> srcVersion then Some (Inl Undefined)
      else
        (let rt = root (versions s ! srcVersion);
             sz = vsize (versions s ! srcVersion)
         in if rt = None \<or> pos = list_end then Some (Inr (s, list_end))
            else if pos = rt
            then
              (case rt of
                 None \<Rightarrow> Some (Inl Undefined)
               | Some r \<Rightarrow>
                   (case heap s r of
                      None \<Rightarrow> Some (Inl Undefined)
                    | Some nd \<Rightarrow>
                        Some (Inr (push_version s \<lparr>root = nxt nd, vsize = sz - 1\<rparr>, nxt nd))))
            else
              (case copy_until s rt pos rt None None of
                 None \<Rightarrow> None
               | Some (Inl e) \<Rightarrow> Some (Inl e)
               | Some (Inr (s2, curOld, curNew, copyRoot)) \<Rightarrow>
                   (case curOld of
                      None \<Rightarrow> Some (Inl Undefined)
                    | Some a \<Rightarrow>
                        (case heap s2 a of
                           None \<Rightarrow> Some (Inl Undefined)
                         | Some nd \<Rightarrow>
                             (case curNew of
                                None \<Rightarrow> Some (Inl Undefined)
                              | Some p \<Rightarrow>
                                  Some (Inr
                                    (push_version (set_next s2 p (nxt nd))
                                       \<lparr>root = copyRoot, vsize = sz - 1\<rparr>,
                                     nxt nd))))))))"

definition push_back :: "'a plist \<Rightarrow> nat \<Rightarrow> 'a \<Rightarrow> (failure + 'a plist) option" where
  "push_back s srcVersion x =
     (case list_insert s srcVersion list_end x of
        None \<Rightarrow> None
      | Some (Inl e) \<Rightarrow> Some (Inl e)
      | Some (Inr (s', it)) \<Rightarrow> Some (Inr s'))"

text \<open>
  The loop of \<^verbatim>\<open>pop_back\<close>, \<^verbatim>\<open>while (curOld->next) { ... }\<close>. Neither the version
  index nor the root is checked before \<^verbatim>\<open>curOld->next\<close> is read.
\<close>

partial_function (option) pop_back_loop ::
  "'a plist \<Rightarrow> iterator \<Rightarrow> iterator \<Rightarrow> iterator \<Rightarrow> iterator
     \<Rightarrow> (failure + 'a plist \<times> iterator) option" where
  "pop_back_loop s rt curOld curNew copyRoot =
     (case curOld of
        None \<Rightarrow> Some (Inl Undefined)
      | Some a \<Rightarrow>
          (case heap s a of
             None \<Rightarrow> Some (Inl Undefined)
           | Some nd \<Rightarrow>
               (case nxt nd of
                  None \<Rightarrow> Some (Inr (s, copyRoot))
                | Some n \<Rightarrow>
                    (case make_shared s (val nd) of
                       (s1, copyCur) \<Rightarrow>
                         pop_back_loop
                           (case curNew of None \<Rightarrow> s1 | Some p \<Rightarrow> set_next s1 p (Some copyCur))
                           rt (Some n) (Some copyCur)
                           (if curOld = rt then Some copyCur else copyRoot)))))"

definition pop_back :: "'a plist \<Rightarrow> nat \<Rightarrow> (failure + 'a plist) option" where
  "pop_back s srcVersion =
     (if length (versions s) \<le> srcVersion then Some (Inl Undefined)
      else
        (let rt = root (versions s ! srcVersion);
             sz = vsize (versions s ! srcVersion)
         in case pop_back_loop s rt rt None None of
              None \<Rightarrow> None
            | Some (Inl e) \<Rightarrow> Some (Inl e)
            | Some (Inr (s', copyRoot)) \<Rightarrow>
                Some (Inr (push_version s' \<lparr>root = copyRoot, vsize = sz - 1\<rparr>))))"

text \<open>
  \<^verbatim>\<open>push_front\<close> and \<^verbatim>\<open>pop_front\<close> evaluate \<^verbatim>\<open>begin(srcVersion)\<close> for the
  argument before \<^verbatim>\<open>insert\<close> or \<^verbatim>\<open>erase\<close> checks the version.
\<close>

definition push_front :: "'a plist \<Rightarrow> nat \<Rightarrow> 'a \<Rightarrow> (failure + 'a plist) option" where
  "push_front s srcVersion x =
     (case list_begin s srcVersion of
        Inl e \<Rightarrow> Some (Inl e)
      | Inr b \<Rightarrow>
          (case list_insert s srcVersion b x of
             None \<Rightarrow> None
           | Some (Inl e) \<Rightarrow> Some (Inl e)
           | Some (Inr (s', it)) \<Rightarrow> Some (Inr s')))"

definition pop_front :: "'a plist \<Rightarrow> nat \<Rightarrow> (failure + 'a plist) option" where
  "pop_front s srcVersion =
     (case list_begin s srcVersion of
        Inl e \<Rightarrow> Some (Inl e)
      | Inr b \<Rightarrow>
          (case list_erase s srcVersion b of
             None \<Rightarrow> None
           | Some (Inl e) \<Rightarrow> Some (Inl e)
           | Some (Inr (s', it)) \<Rightarrow> Some (Inr s')))"

subsection \<open>What a traversal observes\<close>

text \<open>
  \<open>seg h it xs pos\<close>: starting at \<open>it\<close>, the loop
  \<^verbatim>\<open>for (; it != pos; ++it) out.push_back(*it);\<close> reads exactly \<open>xs\<close> and stops.
  With \<open>pos = end()\<close> this is the traversal of a whole version.
\<close>

primrec seg :: "(addr \<rightharpoonup> 'a Node) \<Rightarrow> iterator \<Rightarrow> 'a list \<Rightarrow> iterator \<Rightarrow> bool" where
  "seg h it [] pos = (it = pos)"
| "seg h it (x # xs) pos =
     (it \<noteq> pos \<and> it_deref h it = Inr x
      \<and> (case it_incr h it of Inl e \<Rightarrow> False | Inr it' \<Rightarrow> seg h it' xs pos))"

definition elements :: "'a plist \<Rightarrow> nat \<Rightarrow> 'a list \<Rightarrow> bool" where
  "elements s v xs =
     (case list_begin s v of Inl e \<Rightarrow> False | Inr b \<Rightarrow> seg (heap s) b xs list_end)"

text \<open>
  The invariant of the data model: nothing is stored at or above the allocation counter,
  and every version's chain ends in null after as many nodes as its recorded size.
\<close>

definition wf :: "'a plist \<Rightarrow> bool" where
  "wf s =
     ((\<forall>a. fresh s \<le> a \<longrightarrow> heap s a = None)
      \<and> (\<forall>d \<in> set (versions s).
            \<exists>xs. seg (heap s) (root d) xs list_end \<and> vsize d = word_of_nat (length xs)))"

subsection \<open>Runs of mutators\<close>

text \<open>The six mutators as one call, the returned iterator dropped.\<close>

datatype 'a mutation =
    Insert nat iterator 'a
  | Erase nat iterator
  | PushFront nat 'a
  | PopFront nat
  | PushBack nat 'a
  | PopBack nat

fun srcVersion_of :: "'a mutation \<Rightarrow> nat" where
  "srcVersion_of (Insert v pos x) = v"
| "srcVersion_of (Erase v pos) = v"
| "srcVersion_of (PushFront v x) = v"
| "srcVersion_of (PopFront v) = v"
| "srcVersion_of (PushBack v x) = v"
| "srcVersion_of (PopBack v) = v"

fun mutate :: "'a plist \<Rightarrow> 'a mutation \<Rightarrow> (failure + 'a plist) option" where
  "mutate s (Insert v pos x) = map_option (map_sum id fst) (list_insert s v pos x)"
| "mutate s (Erase v pos) = map_option (map_sum id fst) (list_erase s v pos)"
| "mutate s (PushFront v x) = push_front s v x"
| "mutate s (PopFront v) = pop_front s v"
| "mutate s (PushBack v x) = push_back s v x"
| "mutate s (PopBack v) = pop_back s v"

text \<open>A run of mutators, stopping at the first one that does not return a list.\<close>

fun mutates :: "'a plist \<Rightarrow> 'a mutation list \<Rightarrow> (failure + 'a plist) option" where
  "mutates s [] = Some (Inr s)"
| "mutates s (m # ms) =
     (case mutate s m of
        None \<Rightarrow> None
      | Some (Inl e) \<Rightarrow> Some (Inl e)
      | Some (Inr s') \<Rightarrow> mutates s' ms)"

text \<open>\<open>k\<close> times \<^verbatim>\<open>++it\<close>.\<close>

primrec advance :: "(addr \<rightharpoonup> 'a Node) \<Rightarrow> iterator \<Rightarrow> nat \<Rightarrow> failure + iterator" where
  "advance h it 0 = Inr it"
| "advance h it (Suc k) = (case it_incr h it of Inl e \<Rightarrow> Inl e | Inr it' \<Rightarrow> advance h it' k)"

text \<open>
  The list after \<^verbatim>\<open>push_back(0, 1); push_back(1, 2)\<close> on a new list: version 1 is
  the node at 0, version 2 is the copy at 2 followed by the new node at 1.
\<close>

definition demo_list :: "int plist" where
  "demo_list =
     \<lparr>heap = [0 \<mapsto> \<lparr>val = 1, nxt = None\<rparr>, 2 \<mapsto> \<lparr>val = 1, nxt = Some 1\<rparr>,
              1 \<mapsto> \<lparr>val = 2, nxt = None\<rparr>],
      fresh = 3,
      versions = [\<lparr>root = None, vsize = 0\<rparr>, \<lparr>root = Some 0, vsize = 1\<rparr>,
                  \<lparr>root = Some 2, vsize = 2\<rparr>]\<rparr>"

subsection \<open>Notions for the path-copy loops\<close>

text \<open>
  \<open>copied h copyRoot prevNew vs\<close>: the copies made so far hold the values \<open>vs\<close>, chained
  from \<open>copyRoot\<close> to the last copy \<open>prevNew\<close>, whose \<^verbatim>\<open>next\<close> is still null.
  \<open>above n h\<close> is the store \<open>h\<close> cut down to the addresses from \<open>n\<close> on, where the copies
  live. \<open>loop_post\<close> is what holds when the loop of \<open>copy_until\<close> is left.
\<close>

definition copied :: "(addr \<rightharpoonup> 'a Node) \<Rightarrow> iterator \<Rightarrow> iterator \<Rightarrow> 'a list \<Rightarrow> bool" where
  "copied h copyRoot prevNew vs =
     (case prevNew of
        None \<Rightarrow> vs = [] \<and> copyRoot = None
      | Some p \<Rightarrow>
          vs \<noteq> [] \<and> seg h copyRoot (butlast vs) (Some p)
          \<and> (case h p of None \<Rightarrow> False | Some nd \<Rightarrow> val nd = last vs \<and> nxt nd = None))"

definition above :: "addr \<Rightarrow> (addr \<rightharpoonup> 'a Node) \<Rightarrow> (addr \<rightharpoonup> 'a Node)" where
  "above n h = (\<lambda>a. if n \<le> a then h a else None)"

definition loop_post ::
  "(addr \<rightharpoonup> 'a Node) \<Rightarrow> addr \<Rightarrow> 'a plist \<Rightarrow> iterator \<Rightarrow> iterator \<Rightarrow> iterator \<Rightarrow> 'a list
     \<Rightarrow> 'a list \<Rightarrow> failure + 'a plist \<times> iterator \<times> iterator \<times> iterator \<Rightarrow> bool" where
  "loop_post hb nc s pos cur prevNew rest vs r =
     (case r of
        Inl e \<Rightarrow> e = OutOfRange \<and> pos \<noteq> None \<and> (\<forall>ys. \<not> seg hb cur ys pos)
      | Inr (s', c', pn', cr') \<Rightarrow>
          c' = pos \<and> versions s' = versions s
          \<and> (\<forall>a<fresh s. Some a \<noteq> prevNew \<longrightarrow> heap s' a = heap s a)
          \<and> fresh s \<le> fresh s' \<and> (\<forall>a\<ge>fresh s'. heap s' a = None)
          \<and> (\<forall>p. pn' = Some p \<longrightarrow> nc \<le> p)
          \<and> (\<exists>ys zs. rest = ys @ zs \<and> seg hb cur ys pos \<and> seg hb pos zs None
                \<and> copied (above nc (heap s')) cr' pn' (vs @ ys)))"

section \<open>Evaluation of the version tree\<close>

declare relabel_loop.simps [simp del]

lemma replicate_numeral: "replicate (numeral k) x = x # replicate (pred_numeral k) x"
  by (simp add: numeral_eq_Suc)

lemma list_update_numeral: "(x # xs)[numeral k := y] = x # xs[pred_numeral k := y]"
  by (simp add: numeral_eq_Suc)

lemmas vtree_steps =
  VersionTree_def init_def lastLabel_def sz_sub_def sz_add_def
  insert_version_def insert_after_def getLabel_def relabel_def relabelAll_def relabelRange_def
  getRangeDensity_def occupants_def fill_def order_def
  clear_def Let_def replicate_numeral list_update_numeral relabel_loop.simps
  numeral_2_eq_2 [symmetric]

lemmas vtree_eval = from_fresh_def base_config_def density_below_def vtree_steps

lemmas vtree_obs =
  events_after_def order_after_def labels_after_def table_after_def cleared_after_def
  getLabel_def order_def clear_def init_def lastLabel_def sz_sub_def Let_def
  empty_tree_def size_tree_def tree_eq_def list_update_numeral

lemma fresh_13:
  "VersionTree (base_config 13 10) =
     Inr \<lparr>events = [0, - (2 ^ 63)], labelsNumber = 2, labelToVersion = [0, - (2 ^ 63)],
          versionToLabel = [0 \<mapsto> 0, - (2 ^ 63) \<mapsto> Suc 0]\<rparr>"
  by (simp add: vtree_eval)

lemma first_insert_13:
  "from_fresh (base_config 13 10) [(1, 0)] =
     Inr \<lparr>events = [0, 1, - 1, - (2 ^ 63)], labelsNumber = 4,
          labelToVersion = [0, - (2 ^ 63), 1, - 1],
          versionToLabel = [0 \<mapsto> 0, 1 \<mapsto> 2, - (2 ^ 63) \<mapsto> 3, - 1 \<mapsto> 3]\<rparr>"
  by (simp add: vtree_eval)

lemma first_insert_15:
  "from_fresh (base_config 3 2) [(1, 0)] =
     Inr \<lparr>events = [0, 1, - 1, - (2 ^ 63)], labelsNumber = 8,
          labelToVersion =
            [0, - (2 ^ 63), - (2 ^ 63), - (2 ^ 63), 1, - (2 ^ 63), - 1, - (2 ^ 63)],
          versionToLabel = [0 \<mapsto> 0, 1 \<mapsto> 4, - (2 ^ 63) \<mapsto> 7, - 1 \<mapsto> 6]\<rparr>"
  by (simp add: vtree_eval)

lemma scenario_C_13:
  "from_fresh (base_config 13 10) [(1, 0), (2, 1), (3, 0)] =
     Inr \<lparr>events = [0, 3, - 3, 1, 2, - 2, - 1, - (2 ^ 63)], labelsNumber = 16,
          labelToVersion =
            [0, - (2 ^ 63), 3, - 3, 1, - (2 ^ 63), - (2 ^ 63), - (2 ^ 63),
             2, - (2 ^ 63), - 2, - (2 ^ 63), - 1, - (2 ^ 63), - (2 ^ 63), - (2 ^ 63)],
          versionToLabel =
            [0 \<mapsto> 0, 1 \<mapsto> 4, 2 \<mapsto> 8, - 1 \<mapsto> 12, - (2 ^ 63) \<mapsto> 15, - 2 \<mapsto> 10,
             3 \<mapsto> 2, - 3 \<mapsto> 3]\<rparr>"
  by (simp add: vtree_eval)

lemma scenario_C_15:
  "from_fresh (base_config 3 2) [(1, 0), (2, 1), (3, 0)] =
     Inr \<lparr>events = [0, 3, - 3, 1, 2, - 2, - 1, - (2 ^ 63)], labelsNumber = 16,
          labelToVersion =
            [0, - (2 ^ 63), 3, - 3, 1, - (2 ^ 63), - (2 ^ 63), - (2 ^ 63),
             2, - (2 ^ 63), - 2, - (2 ^ 63), - 1, - (2 ^ 63), - (2 ^ 63), - (2 ^ 63)],
          versionToLabel =
            [0 \<mapsto> 0, 1 \<mapsto> 4, 2 \<mapsto> 8, - 1 \<mapsto> 12, - (2 ^ 63) \<mapsto> 15, - 2 \<mapsto> 10,
             3 \<mapsto> 2, - 3 \<mapsto> 3]\<rparr>"
  by (simp add: vtree_eval)

lemma dropping_run_11:
  "from_fresh (base_config 11 10) [(1, 0), (2, 0), (3, 2)] =
     Inr \<lparr>events = [0, 2, 3, - 3, - 2, 1, - 1, - (2 ^ 63)], labelsNumber = 16,
          labelToVersion =
            [0, - (2 ^ 63), - (2 ^ 63), 2, 3, - 3, - (2 ^ 63), - (2 ^ 63),
             - (2 ^ 63), 1, - (2 ^ 63), - (2 ^ 63), - 1, - (2 ^ 63), - (2 ^ 63), - (2 ^ 63)],
          versionToLabel =
            [0 \<mapsto> 0, 2 \<mapsto> 3, - 2 \<mapsto> 6, 1 \<mapsto> 9, - 1 \<mapsto> 12, 3 \<mapsto> 4,
             - (2 ^ 63) \<mapsto> 15, - 3 \<mapsto> 5]\<rparr>"
  by (simp add: vtree_eval)

text \<open>
  The first insertion under the root, whatever the two missing constants are: the only
  density tests it can reach are that of one occupant in two slots and that of two
  occupants in four.
\<close>

lemma first_insert_any_config:
  assumes "NONE_VERSION c \<noteq> 0" "NONE_VERSION c \<noteq> 1" "NONE_VERSION c \<noteq> - 1"
  shows "\<exists>t l r. from_fresh c [(1, 0)] = Inr t \<and> events t = [0, 1, - 1, NONE_VERSION c]
           \<and> 4 \<le> labelsNumber t \<and> versionToLabel t 0 = Some 0
           \<and> versionToLabel t 1 = Some l \<and> versionToLabel t (- 1) = Some r \<and> 0 < l \<and> l < r"
  using assms
  by (cases "overflow_lt c (1, 2) 2"; cases "overflow_lt c (2, 4) 4")
     (simp_all add: from_fresh_def vtree_steps)

lemma first_insert_qualifying:
  assumes "NONE_VERSION c \<noteq> 0" "NONE_VERSION c \<noteq> 1" "NONE_VERSION c \<noteq> - 1"
    and "overflow_lt c (1, 2) 2"
  shows "\<exists>t. from_fresh c [(1, 0)] = Inr t \<and> events t = [0, 1, - 1, NONE_VERSION c]
           \<and> labelsNumber t = 4 \<and> labelToVersion t = [0, NONE_VERSION c, 1, - 1]
           \<and> map (versionToLabel t) (events t) = [Some 0, Some 2, Some 3, Some 3]"
  using assms by (simp add: from_fresh_def vtree_steps)

text \<open>
  \<^verbatim>\<open>_relabelRange\<close> steps by the whole width of the window, so its loop runs once: the
  first occupant moves to the start of the window and the others leave the label table.
\<close>

lemma place_past_limit:
  "limit \<le> i \<Longrightarrow> place vs i limit step (l2v, v2l) = (l2v, v2l)"
  by (cases vs) simp_all

lemma place_window:
  "rangeStart < rangeEnd \<Longrightarrow>
   place (v # vs) rangeStart rangeEnd (rangeEnd - rangeStart) (l2v, v2l) =
     (l2v[rangeStart := v], v2l(v \<mapsto> rangeStart))"
  by (simp add: place_past_limit)

lemma relabelRange_keeps_first:
  assumes "rangeStart < rangeEnd" "relabelRange c t rangeStart rangeEnd = Inr t'"
  shows "occupants c t' rangeStart rangeEnd = take 1 (occupants c t rangeStart rangeEnd)"
proof -
  let ?N = "NONE_VERSION c"
  let ?l = "labelToVersion t"
  from assms have len: "rangeEnd \<le> length ?l"
    by (auto simp: relabelRange_def split: if_splits)
  let ?f = "fill ?l rangeStart rangeEnd ?N"
  have drop_f: "take (rangeEnd - rangeStart) (drop rangeStart ?f) = replicate (rangeEnd - rangeStart) ?N"
    using len assms(1) by (simp add: fill_def)
  show ?thesis
  proof (cases "occupants c t rangeStart rangeEnd")
    case Nil
    with assms len have "labelToVersion t' = ?f"
      by (auto simp: relabelRange_def Let_def)
    with drop_f Nil show ?thesis by (simp add: occupants_def)
  next
    case (Cons v vs)
    then have "v \<in> set (occupants c t rangeStart rangeEnd)" by simp
    then have v: "v \<noteq> ?N" by (simp add: occupants_def)
    from assms len Cons have l': "labelToVersion t' = ?f[rangeStart := v]"
      by (auto simp: relabelRange_def Let_def place_past_limit)
    have "rangeStart < length ?f" using len assms(1) by (simp add: fill_def)
    then have "drop rangeStart (?f[rangeStart := v]) = v # drop (Suc rangeStart) ?f"
      by (simp add: drop_update_cancel Cons_nth_drop_Suc [symmetric] upd_conv_take_nth_drop)
    moreover have "take (rangeEnd - rangeStart) (v # drop (Suc rangeStart) ?f)
        = v # replicate (rangeEnd - rangeStart - 1) ?N"
    proof -
      have "take (rangeEnd - rangeStart - 1) (drop (Suc rangeStart) ?f)
          = drop 1 (take (rangeEnd - rangeStart) (drop rangeStart ?f))"
        by (simp add: drop_take)
      also have "\<dots> = replicate (rangeEnd - rangeStart - 1) ?N"
        by (simp add: drop_f)
      finally show ?thesis using assms(1) by (cases "rangeEnd - rangeStart") simp_all
    qed
    ultimately show ?thesis using v l' Cons by (simp add: occupants_def)
  qed
qed

section \<open>Claims about the version tree\<close>

text \<open>
  Claim C1. After \<^verbatim>\<open>insert(c, p)\<close> the query \<^verbatim>\<open>order(p, c)\<close> should be true, and in
  particular \<^verbatim>\<open>order(0, v)\<close> for every version under the root. \<^verbatim>\<open>order(0, v)\<close> compares
  the close label of \<open>v\<close> with the label of the key \<open>-0 = 0\<close>, the open event of the root,
  which keeps label 0, while the close event of the root is stored under
  \<^verbatim>\<open>NONE_VERSION\<close>. So for the first child of the root, whatever the two constants are
  (the sentinel being none of 0, 1, -1), \<^verbatim>\<open>order(0, 1)\<close> is false.
\<close>

theorem order_root_child_false:
  assumes "NONE_VERSION c \<noteq> 0" "NONE_VERSION c \<noteq> 1" "NONE_VERSION c \<noteq> - 1"
  shows "order_after c [(1, 0)] 0 1 = Inr False"
proof -
  from first_insert_any_config [OF assms] obtain t l r where
    "from_fresh c [(1, 0)] = Inr t" "versionToLabel t 0 = Some 0"
    "versionToLabel t 1 = Some l" "versionToLabel t (- 1) = Some r" "0 < l" "l < r"
    by auto
  then show ?thesis by (simp add: order_after_def order_def getLabel_def)
qed

theorem order_root_child_false_witness:
  "order_after (base_config 13 10) [(1, 0)] 0 1 = Inr False"
  using order_root_child_false [of "base_config 13 10"] by (simp add: base_config_def)

text \<open>
  Claim C3. Relabelling should redistribute the occupants of the qualifying window at
  equal spacing and keep every one of them. With the base 1.1, in the run
  \<^verbatim>\<open>insert(1, 0); insert(2, 0); insert(3, 2)\<close> the close event of 3 collides between the
  labels 5 and 6, the window of slots 4 to 7 qualifies with the two occupants 3 and -2, and
  afterwards the key -2 still has label 6 while slot 6 of the label table holds the
  sentinel: the occupant -2 has left the table.
\<close>

theorem relabel_window_drops_occupant:
  "labels_after (base_config 11 10) [(1, 0), (2, 0), (3, 2)]
     = Inr [Some 0, Some 3, Some 4, Some 5, Some 6, Some 9, Some 12, Some 15]
   \<and> table_after (base_config 11 10) [(1, 0), (2, 0), (3, 2)]
     = Inr (16, [0, - (2 ^ 63), - (2 ^ 63), 2, 3, - 3, - (2 ^ 63), - (2 ^ 63),
                 - (2 ^ 63), 1, - (2 ^ 63), - (2 ^ 63), - 1, - (2 ^ 63), - (2 ^ 63), - (2 ^ 63)])"
  by (simp add: labels_after_def table_after_def dropping_run_11)

text \<open>
  Claim C4. After every run of insertions the labels along the event list should be
  strictly increasing and pairwise distinct, with slot \<open>M - 1\<close> of the label table kept
  for the sentinel. Whenever one occupant in a window of two slots counts as below the
  threshold (every base below the square root of 2, such as 1.3), the first insertion
  into a fresh tree gives the close event of the new version the label 3 of the
  sentinel, and writes it into slot \<open>M - 1 = 3\<close>.
\<close>

theorem first_insert_label_collision:
  assumes "NONE_VERSION c \<noteq> 0" "NONE_VERSION c \<noteq> 1" "NONE_VERSION c \<noteq> - 1"
    and "overflow_lt c (1, 2) 2"
  shows "labels_after c [(1, 0)] = Inr [Some 0, Some 2, Some 3, Some 3]
       \<and> table_after c [(1, 0)] = Inr (4, [0, NONE_VERSION c, 1, - 1])"
proof -
  from first_insert_qualifying [OF assms] obtain t where
    "from_fresh c [(1, 0)] = Inr t" "labelsNumber t = 4"
    "labelToVersion t = [0, NONE_VERSION c, 1, - 1]"
    "map (versionToLabel t) (events t) = [Some 0, Some 2, Some 3, Some 3]"
    by auto
  then show ?thesis by (simp add: labels_after_def table_after_def)
qed

theorem first_insert_label_collision_witness:
  "labels_after (base_config 13 10) [(1, 0)] = Inr [Some 0, Some 2, Some 3, Some 3]
   \<and> table_after (base_config 13 10) [(1, 0)] = Inr (4, [0, - (2 ^ 63), 1, - 1])"
  using first_insert_label_collision [of "base_config 13 10"]
  by (simp add: base_config_def density_below_def)

text \<open>
  Claim C7. \<^verbatim>\<open>clear()\<close> should return the tree to the state of a fresh one.
  It empties the event list and runs \<^verbatim>\<open>_init\<close>, which leaves the capacity, the other
  slots of the label table and the reverse map as they were. After one insertion and
  \<^verbatim>\<open>clear()\<close>, whatever the two constants are: the tree is empty and of size 1, but its
  capacity is at least 4, it differs from every fresh tree, and \<^verbatim>\<open>order(1, 1)\<close> still
  answers.
\<close>

theorem clear_keeps_labels:
  assumes "NONE_VERSION c \<noteq> 0" "NONE_VERSION c \<noteq> 1" "NONE_VERSION c \<noteq> - 1"
  shows "\<exists>t. cleared_after c [(1, 0)] = Inr t \<and> empty_tree t \<and> size_tree t = 1
           \<and> 4 \<le> labelsNumber t \<and> order t 1 1 = Inr True
           \<and> (\<forall>u. VersionTree c = Inr u \<longrightarrow> \<not> tree_eq t u)"
  using assms
  by (cases "overflow_lt c (1, 2) 2"; cases "overflow_lt c (2, 4) 4")
     (simp_all add: cleared_after_def from_fresh_def vtree_steps empty_tree_def size_tree_def
        tree_eq_def)

theorem clear_keeps_labels_witness:
  "\<exists>t. cleared_after (base_config 13 10) [(1, 0)] = Inr t \<and> empty_tree t \<and> size_tree t = 1
     \<and> 4 \<le> labelsNumber t \<and> order t 1 1 = Inr True
     \<and> (\<forall>u. VersionTree (base_config 13 10) = Inr u \<longrightarrow> \<not> tree_eq t u)"
  using clear_keeps_labels [of "base_config 13 10"] by (simp add: base_config_def)

text \<open>
  Claim C8. Scenario C expects the event list \<open>[0 [1 [2 ]2 ]1 [3 ]3 ]0\<close> and
  \<^verbatim>\<open>before(0, 2)\<close> true. The run puts the bracket of 3 before that of 1, since a new
  child goes right after the open event of its parent, and \<^verbatim>\<open>order(0, 2)\<close> is false.
\<close>

theorem scenario_C_as_stated_fails:
  "events_after (base_config 13 10) [(1, 0), (2, 1), (3, 0)]
     = Inr [0, 3, - 3, 1, 2, - 2, - 1, - (2 ^ 63)]
   \<and> events_after (base_config 13 10) [(1, 0), (2, 1), (3, 0)]
     \<noteq> Inr [0, 1, 2, - 2, - 1, 3, - 3, - (2 ^ 63)]
   \<and> order_after (base_config 13 10) [(1, 0), (2, 1), (3, 0)] 0 2 = Inr False"
  by (simp add: events_after_def order_after_def scenario_C_13 order_def getLabel_def)

text \<open>
  Claim C8, amended. With the base 1.3 as with the base 1.5, the run of Scenario C yields
  the event list \<open>[0 [3 ]3 [1 [2 ]2 ]1\<close> closed by the sentinel, and the queries
  \<^verbatim>\<open>order(1, 3)\<close>, \<^verbatim>\<open>order(3, 1)\<close>, \<^verbatim>\<open>order(2, 1)\<close> are false and \<^verbatim>\<open>order(1, 2)\<close>
  is true.
\<close>

theorem scenario_C_amended:
  "events_after (base_config 13 10) [(1, 0), (2, 1), (3, 0)]
     = Inr [0, 3, - 3, 1, 2, - 2, - 1, - (2 ^ 63)]
   \<and> order_after (base_config 13 10) [(1, 0), (2, 1), (3, 0)] 1 3 = Inr False
   \<and> order_after (base_config 13 10) [(1, 0), (2, 1), (3, 0)] 3 1 = Inr False
   \<and> order_after (base_config 13 10) [(1, 0), (2, 1), (3, 0)] 2 1 = Inr False
   \<and> order_after (base_config 13 10) [(1, 0), (2, 1), (3, 0)] 1 2 = Inr True
   \<and> events_after (base_config 3 2) [(1, 0), (2, 1), (3, 0)]
     = Inr [0, 3, - 3, 1, 2, - 2, - 1, - (2 ^ 63)]
   \<and> order_after (base_config 3 2) [(1, 0), (2, 1), (3, 0)] 1 3 = Inr False
   \<and> order_after (base_config 3 2) [(1, 0), (2, 1), (3, 0)] 3 1 = Inr False
   \<and> order_after (base_config 3 2) [(1, 0), (2, 1), (3, 0)] 2 1 = Inr False
   \<and> order_after (base_config 3 2) [(1, 0), (2, 1), (3, 0)] 1 2 = Inr True"
  by (simp add: events_after_def order_after_def scenario_C_13 scenario_C_15 order_def
      getLabel_def)

section \<open>The persistent list: segments and the copy loops\<close>

lemma seg_unique: "seg h it xs pos \<Longrightarrow> seg h it ys pos \<Longrightarrow> xs = ys"
proof (induction xs arbitrary: it ys)
  case Nil
  then show ?case by (cases ys) auto
next
  case (Cons x xs)
  then show ?case
    by (cases ys) (auto split: sum.splits)
qed

lemma seg_Cons_iff:
  "seg h it (x # xs) pos \<longleftrightarrow>
     it \<noteq> pos \<and> (\<exists>a nd. it = Some a \<and> h a = Some nd \<and> val nd = x \<and> seg h (nxt nd) xs pos)"
  by (cases it) (auto simp: it_deref_def it_incr_def split: option.splits sum.splits)

declare seg.simps(2) [simp del]

lemma seg_frame:
  "seg h it xs pos \<Longrightarrow> (\<And>a. Some a \<noteq> pos \<Longrightarrow> h a \<noteq> None \<Longrightarrow> h' a = h a) \<Longrightarrow> seg h' it xs pos"
proof (induction xs arbitrary: it)
  case Nil
  then show ?case by simp
next
  case (Cons x xs)
  from Cons.prems(1) obtain a nd where a: "it \<noteq> pos" "it = Some a" "h a = Some nd" "val nd = x"
      "seg h (nxt nd) xs pos"
    by (auto simp: seg_Cons_iff)
  then have "h' a = h a" using Cons.prems(2) by auto
  moreover have "seg h' (nxt nd) xs pos" using a Cons by blast
  ultimately show ?case using a by (auto simp: seg_Cons_iff)
qed

lemma seg_below:
  "seg h it xs pos \<Longrightarrow> (\<And>a. n \<le> a \<Longrightarrow> h a = None) \<Longrightarrow> (\<And>a. a < n \<Longrightarrow> h' a = h a)
   \<Longrightarrow> seg h' it xs pos"
  by (rule seg_frame, assumption) (metis not_le_imp_less)

lemma seg_None_start [simp]: "seg h None xs pos \<longleftrightarrow> xs = [] \<and> pos = None"
  by (cases xs) (auto simp: seg_Cons_iff)

lemma seg_self: "seg h it ys it \<Longrightarrow> ys = []"
  by (cases ys) (auto simp: seg_Cons_iff)

text \<open>Extending a copied prefix by the node just allocated.\<close>

lemma seg_snoc_fresh:
  assumes "seg h it xs (Some p)" "h p = Some nd" "h n = None"
    and "h' = h(n \<mapsto> nd', p \<mapsto> nd\<lparr>nxt := Some n\<rparr>)"
  shows "seg h' it (xs @ [val nd]) (Some n)"
  using assms(1)
proof (induction xs arbitrary: it)
  case Nil
  then have "it = Some p" by simp
  moreover have "p \<noteq> n" using assms by auto
  ultimately show ?case using assms by (simp add: seg_Cons_iff)
next
  case (Cons x xs)
  from Cons.prems obtain a md where a: "it \<noteq> Some p" "it = Some a" "h a = Some md" "val md = x"
      "seg h (nxt md) xs (Some p)"
    by (auto simp: seg_Cons_iff)
  then have "a \<noteq> n" "a \<noteq> p" using assms by auto
  then have "h' a = Some md" using a assms by simp
  moreover have "seg h' (nxt md) (xs @ [val nd]) (Some n)" using Cons.IH a by blast
  ultimately show ?case using a \<open>a \<noteq> n\<close> by (simp add: seg_Cons_iff)
qed

text \<open>A segment followed by a walk to the end is a walk to the end.\<close>

lemma seg_append_end:
  "seg h it xs pos \<Longrightarrow> seg h pos ys None \<Longrightarrow> seg h it (xs @ ys) None"
proof (induction xs arbitrary: it)
  case Nil
  then show ?case by simp
next
  case (Cons x xs)
  then show ?case by (auto simp: seg_Cons_iff)
qed

text \<open>A new list is well formed.\<close>

lemma wf_PersistentList: "wf (PersistentList :: 'a plist)"
  by (simp add: wf_def PersistentList_def list_end_def)

lemma above_upd:
  "n \<le> a \<Longrightarrow> above n (h(a \<mapsto> x)) = (above n h)(a \<mapsto> x)"
  by (auto simp: above_def)

lemma above_apply [simp]: "n \<le> a \<Longrightarrow> above n h a = h a"
  by (simp add: above_def)

lemma seg_above: "seg (above n h) it xs pos \<Longrightarrow> seg h it xs pos"
  by (erule seg_frame) (auto simp: above_def split: if_splits)

text \<open>One round of path copying: allocate the copy, hang it behind the previous copy.\<close>

lemma copy_step:
  assumes inv: "\<forall>b<nb. heap s b = hb b" "nb \<le> nc" "nc \<le> fresh s" "\<forall>b\<ge>fresh s. heap s b = None"
    and cp: "copied (above nc (heap s)) copyRoot prevNew vs" "\<forall>p. prevNew = Some p \<longrightarrow> nc \<le> p"
    and first: "first \<longleftrightarrow> vs = []"
    and s1: "s1 = s\<lparr>heap := (heap s)(fresh s \<mapsto> \<lparr>val = y, nxt = None\<rparr>), fresh := Suc (fresh s)\<rparr>"
    and s2: "s2 = (case prevNew of None \<Rightarrow> s1 | Some p \<Rightarrow> set_next s1 p (Some (fresh s)))"
  shows "versions s2 = versions s \<and> fresh s2 = Suc (fresh s)
      \<and> (\<forall>b<nb. heap s2 b = hb b) \<and> (\<forall>b\<ge>Suc (fresh s). heap s2 b = None)
      \<and> (\<forall>b<fresh s. Some b \<noteq> prevNew \<longrightarrow> heap s2 b = heap s b)
      \<and> copied (above nc (heap s2)) (if first then Some (fresh s) else copyRoot)
           (Some (fresh s)) (vs @ [y])"
proof (cases prevNew)
  case None
  then have "vs = []" "copyRoot = None" using cp(1) by (simp_all add: copied_def)
  moreover have "s2 = s1" using None by (simp add: s2)
  ultimately show ?thesis
    using inv first by (auto simp: s1 copied_def)
next
  case (Some p)
  define n where "n = fresh s"
  have n_free: "heap s n = None" using inv(4) by (simp add: n_def)
  have ncn: "nc \<le> n" using inv(3) by (simp add: n_def)
  have ncp: "nc \<le> p" using cp(2) Some by simp
  with Some cp(1) obtain pd where p: "vs \<noteq> []"
      "seg (above nc (heap s)) copyRoot (butlast vs) (Some p)"
      "heap s p = Some pd" "val pd = last vs" "nxt pd = None"
    by (auto simp: copied_def split: option.splits)
  have pn: "p \<noteq> n" using p(3) n_free by auto
  have p_lt: "p < n" using p(3) inv(4) n_def by (metis not_le_imp_less option.distinct(1))
  have heap2: "heap s2 = (heap s)(n \<mapsto> \<lparr>val = y, nxt = None\<rparr>, p \<mapsto> pd\<lparr>nxt := Some n\<rparr>)"
    using Some p(3) pn by (simp add: s2 s1 set_next_def n_def)
  have above2: "above nc (heap s2)
      = (above nc (heap s))(n \<mapsto> \<lparr>val = y, nxt = None\<rparr>, p \<mapsto> pd\<lparr>nxt := Some n\<rparr>)"
    using ncn ncp by (simp add: heap2 above_upd)
  have "seg (above nc (heap s2)) copyRoot (butlast vs @ [val pd]) (Some n)"
    by (rule seg_snoc_fresh [OF p(2) _ _ above2]) (use p(3) n_free ncp ncn in simp_all)
  then have sg: "seg (above nc (heap s2)) copyRoot vs (Some n)" using p(1,4) by simp
  have "versions s2 = versions s" "fresh s2 = Suc n"
    using Some p(3) pn by (simp_all add: s2 s1 set_next_def n_def)
  moreover have "\<forall>b<nb. heap s2 b = hb b"
    using heap2 inv ncp by (auto simp: n_def)
  moreover have "\<forall>b\<ge>Suc n. heap s2 b = None"
    using heap2 inv(4) p_lt by (auto simp: n_def)
  moreover have "\<forall>b<n. Some b \<noteq> prevNew \<longrightarrow> heap s2 b = heap s b"
    using heap2 Some by auto
  moreover have "heap s2 n = Some \<lparr>val = y, nxt = None\<rparr>" using heap2 pn by simp
  ultimately show ?thesis using sg ncn p(1) first by (simp add: copied_def n_def)
qed

lemma copy_until_walk:
  assumes base: "\<And>a. nb \<le> a \<Longrightarrow> hb a = None"
    and full: "seg hb bgn full None"
    and nc: "nb \<le> nc"
  shows "\<lbrakk>seg hb cur rest None; \<forall>a<nb. heap s a = hb a; nc \<le> fresh s;
          \<forall>a\<ge>fresh s. heap s a = None; copied (above nc (heap s)) copyRoot prevNew vs;
          \<forall>p. prevNew = Some p \<longrightarrow> nc \<le> p;
          if vs = [] then cur = bgn else length rest < length full\<rbrakk>
     \<Longrightarrow> \<exists>r. copy_until s bgn pos cur prevNew copyRoot = Some r
            \<and> loop_post hb nc s pos cur prevNew rest vs r"
proof (induction rest arbitrary: s cur copyRoot prevNew vs)
  case Nil
  then have cur: "cur = None" by simp
  show ?case
  proof (cases "pos = None")
    case True
    have "copy_until s bgn pos cur prevNew copyRoot = Some (Inr (s, cur, prevNew, copyRoot))"
      using cur True by (subst copy_until.simps) simp
    then show ?thesis using Nil cur True by (simp add: loop_post_def)
  next
    case False
    have "copy_until s bgn pos cur prevNew copyRoot = Some (Inl OutOfRange)"
      using cur False by (subst copy_until.simps) (auto simp: it_deref_def)
    then show ?thesis using cur False by (simp add: loop_post_def)
  qed
next
  case (Cons y rest')
  from Cons.prems(1) obtain a nd where a: "cur = Some a" "hb a = Some nd" "val nd = y"
      "seg hb (nxt nd) rest' None"
    by (auto simp: seg_Cons_iff)
  show ?case
  proof (cases "cur = pos")
    case True
    have "copy_until s bgn pos cur prevNew copyRoot = Some (Inr (s, cur, prevNew, copyRoot))"
      using True by (subst copy_until.simps) simp
    moreover have "\<exists>ys zs. y # rest' = ys @ zs \<and> seg hb cur ys pos \<and> seg hb pos zs None
        \<and> copied (above nc (heap s)) copyRoot prevNew (vs @ ys)"
      using Cons.prems(1,5) True
      by (intro exI [of _ "[]"] exI [of _ "y # rest'"]) simp
    ultimately show ?thesis using Cons.prems(4,6) True
      by (simp add: loop_post_def)
  next
    case False
    have "a < nb" using a(2) base by (metis not_le_imp_less option.distinct(1))
    then have sa: "heap s a = Some nd" using Cons.prems(2) a(2) by simp
    define n where "n = fresh s"
    have n_free: "heap s n = None" using Cons.prems(4) by (simp add: n_def)
    have ncn: "nc \<le> n" using Cons.prems(3) by (simp add: n_def)
    have an: "a \<noteq> n" using sa n_free by auto
    define s1 where "s1 = s\<lparr>heap := (heap s)(n \<mapsto> \<lparr>val = y, nxt = None\<rparr>), fresh := Suc n\<rparr>"
    define s2 where "s2 = (case prevNew of None \<Rightarrow> s1 | Some p \<Rightarrow> set_next s1 p (Some n))"
    define cr2 where "cr2 = (if cur = bgn then Some n else copyRoot)"
    have bgn_iff: "cur = bgn \<longleftrightarrow> vs = []"
    proof
      assume "cur = bgn"
      with Cons.prems(1) full have "full = y # rest'" by (metis seg_unique)
      with Cons.prems(7) show "vs = []" by (auto split: if_splits)
    next
      assume "vs = []"
      with Cons.prems(7) show "cur = bgn" by simp
    qed
    have s2_facts: "versions s2 = versions s \<and> fresh s2 = Suc n
        \<and> (\<forall>b<nb. heap s2 b = hb b) \<and> (\<forall>b\<ge>Suc n. heap s2 b = None)
        \<and> (\<forall>b<n. Some b \<noteq> prevNew \<longrightarrow> heap s2 b = heap s b)
        \<and> copied (above nc (heap s2)) cr2 (Some n) (vs @ [y])"
      unfolding n_def cr2_def s2_def s1_def
      by (rule copy_step [OF Cons.prems(2) nc Cons.prems(3,4,5,6) bgn_iff]) (rule refl)+
    then have s2a: "heap s2 a = Some nd" using \<open>a < nb\<close> a(2) by simp
    have step: "copy_until s bgn pos cur prevNew copyRoot
        = copy_until s2 bgn pos (nxt nd) (Some n) cr2"
      using False sa a(1,3) s2a
      by (subst copy_until.simps)
         (simp add: it_deref_def it_incr_def make_shared_def s1_def [symmetric] n_def [symmetric]
            s2_def [symmetric] cr2_def)
    have len: "if vs @ [y] = [] then nxt nd = bgn else length rest' < length full"
    proof -
      have "length (y # rest') \<le> length full"
      proof (cases "vs = []")
        case True
        then have "cur = bgn" using bgn_iff by simp
        with Cons.prems(1) full have "full = y # rest'" by (metis seg_unique)
        then show ?thesis by simp
      next
        case False
        with Cons.prems(7) show ?thesis by simp
      qed
      then show ?thesis by simp
    qed
    have "\<exists>r. copy_until s2 bgn pos (nxt nd) (Some n) cr2 = Some r
            \<and> loop_post hb nc s2 pos (nxt nd) (Some n) rest' (vs @ [y]) r"
      using s2_facts ncn len
      by (intro Cons.IH [OF a(4)]) auto
    then obtain r where r: "copy_until s2 bgn pos (nxt nd) (Some n) cr2 = Some r"
        "loop_post hb nc s2 pos (nxt nd) (Some n) rest' (vs @ [y]) r"
      by blast
    have "loop_post hb nc s pos cur prevNew (y # rest') vs r"
    proof (cases r)
      case (Inl e)
      with r(2) have e: "e = OutOfRange" "pos \<noteq> None" "\<forall>ys. \<not> seg hb (nxt nd) ys pos"
        by (simp_all add: loop_post_def)
      have "\<not> seg hb cur ys pos" for ys
      proof (cases ys)
        case Nil
        then show ?thesis using False by simp
      next
        case (Cons z zs)
        then show ?thesis using e(3) a by (auto simp: seg_Cons_iff)
      qed
      then show ?thesis using Inl e by (simp add: loop_post_def)
    next
      case (Inr t)
      obtain s' c' pn' cr' where t: "t = (s', c', pn', cr')" by (cases t) auto
      from r(2) Inr t obtain ys zs where post:
        "c' = pos" "versions s' = versions s2"
        "\<forall>a<fresh s2. Some a \<noteq> Some n \<longrightarrow> heap s' a = heap s2 a"
        "fresh s2 \<le> fresh s'" "\<forall>a\<ge>fresh s'. heap s' a = None"
        "\<forall>p. pn' = Some p \<longrightarrow> nc \<le> p"
        "rest' = ys @ zs" "seg hb (nxt nd) ys pos" "seg hb pos zs None"
        "copied (above nc (heap s')) cr' pn' ((vs @ [y]) @ ys)"
        by (auto simp: loop_post_def)
      have "seg hb cur (y # ys) pos" using post(8) a False by (simp add: seg_Cons_iff)
      then have "\<exists>ys zs. y # rest' = ys @ zs \<and> seg hb cur ys pos \<and> seg hb pos zs None
          \<and> copied (above nc (heap s')) cr' pn' (vs @ ys)"
        using post(7,9,10)
        by (intro exI [of _ "y # ys"] exI [of _ zs]) simp
      moreover have "fresh s \<le> fresh s'" using post(4) s2_facts by (simp add: n_def)
      moreover have "\<forall>b<fresh s. Some b \<noteq> prevNew \<longrightarrow> heap s' b = heap s b"
        using post(3) s2_facts by (auto simp: n_def)
      ultimately show ?thesis using Inr t post(1,2,5,6) s2_facts
        by (simp add: loop_post_def)
    qed
    with r(1) step show ?thesis by simp
  qed
qed

lemma copied_link:
  assumes "copied (above nc h) cr (Some p) ys"
    and "\<And>a. nc \<le> a \<Longrightarrow> a \<noteq> p \<Longrightarrow> h' a = h a"
    and "h p = Some pd" "h' p = Some (pd\<lparr>nxt := t\<rparr>)"
    and "seg h' t zs None"
  shows "seg h' cr (ys @ zs) None"
proof -
  from assms(1) have ys: "ys \<noteq> []" and sg: "seg (above nc h) cr (butlast ys) (Some p)"
    and ap: "above nc h p \<noteq> None" "\<forall>nd. above nc h p = Some nd \<longrightarrow> val nd = last ys"
    by (auto simp: copied_def split: option.splits)
  from ap(1) have ncp: "nc \<le> p" by (auto simp: above_def split: if_splits)
  with ap(2) assms(3) have vl: "val pd = last ys" by simp
  have "seg h' cr (butlast ys) (Some p)"
    using sg
  proof (rule seg_frame)
    fix a assume "Some a \<noteq> Some p" "above nc h a \<noteq> None"
    then show "h' a = above nc h a"
      using assms(2) [of a] by (auto simp: above_def split: if_splits)
  qed
  moreover have "seg h' (Some p) (last ys # zs) None"
    using assms(4,5) vl by (simp add: seg_Cons_iff)
  ultimately have "seg h' cr (butlast ys @ last ys # zs) None"
    by (rule seg_append_end)
  then show ?thesis using ys by (metis append.assoc append_Cons append_Nil append_butlast_last_id)
qed

lemma copied_walk:
  assumes "copied (above nc h) cr pn ys"
  shows "seg h cr ys None"
proof (cases pn)
  case None
  with assms show ?thesis by (simp add: copied_def)
next
  case (Some p)
  with assms obtain pd where pd: "h p = Some pd" "nxt pd = None"
    by (auto simp: copied_def above_def split: option.splits if_splits)
  have "seg h cr (ys @ []) None"
    using assms [unfolded Some]
    by (rule copied_link [where h' = h and pd = pd and t = None]) (use pd in simp_all)
  then show ?thesis by simp
qed

lemma copied_Some:
  "copied h cr pn ys \<Longrightarrow> ys \<noteq> [] \<Longrightarrow> \<exists>p. pn = Some p"
  by (cases pn) (auto simp: copied_def)

lemma wf_push:
  assumes "wf s" "\<forall>a<fresh s. heap s' a = heap s a" "\<forall>a\<ge>fresh s'. heap s' a = None"
    and "versions s' = versions s @ [d]" "seg (heap s') (root d) ys None"
    and "vsize d = word_of_nat (length ys)"
  shows "wf s'"
proof -
  have "\<exists>xs. seg (heap s') (root e) xs None \<and> vsize e = word_of_nat (length xs)"
    if "e \<in> set (versions s)" for e
  proof -
    from that assms(1) obtain xs where xs: "seg (heap s) (root e) xs None"
        "vsize e = word_of_nat (length xs)"
      by (auto simp: wf_def list_end_def)
    have "seg (heap s') (root e) xs None"
      using xs(1)
      by (rule seg_below [where n = "fresh s"]) (use assms(1,2) in \<open>auto simp: wf_def\<close>)
    with xs(2) show ?thesis by blast
  qed
  then show ?thesis using assms(3,4,5,6) by (auto simp: wf_def list_end_def)
qed

lemma wf_version:
  assumes "wf s" "v < length (versions s)" "seg (heap s) (root (versions s ! v)) xs None"
  shows "vsize (versions s ! v) = word_of_nat (length xs)"
proof -
  from assms(1,2) obtain ys where "seg (heap s) (root (versions s ! v)) ys None"
      "vsize (versions s ! v) = word_of_nat (length ys)"
    by (auto simp: wf_def list_end_def dest!: bspec [OF _ nth_mem])
  with assms(3) show ?thesis by (metis seg_unique)
qed

lemma valid_version [simp]: "v < length (versions s) \<Longrightarrow> \<not> invalid_version s v"
  by (simp add: invalid_version_def sz_sub_def)

lemma list_insert_spec:
  assumes wf: "wf s" and v: "v < length (versions s)"
    and xs: "seg (heap s) (root (versions s ! v)) xs None"
  shows "\<exists>r. list_insert s v pos x = Some r \<and>
    (case r of
       Inl e \<Rightarrow> e = OutOfRange \<and> root (versions s ! v) \<noteq> None
                 \<and> (\<forall>ys. \<not> seg (heap s) (root (versions s ! v)) ys pos)
     | Inr (s', it) \<Rightarrow>
         wf s' \<and> (\<forall>a<fresh s. heap s' a = heap s a) \<and> fresh s \<le> fresh s'
         \<and> it_deref (heap s') it = Inr x
         \<and> (\<exists>r' ys zs. versions s' = versions s @ [\<lparr>root = r', vsize = vsize (versions s ! v) + 1\<rparr>]
               \<and> xs = ys @ zs \<and> seg (heap s') r' (ys @ x # zs) None
               \<and> (root (versions s ! v) = None \<or> seg (heap s) (root (versions s ! v)) ys pos)))"
proof -
  define d where "d = versions s ! v"
  define n0 where "n0 = fresh s"
  define s1 where "s1 = s\<lparr>heap := (heap s)(n0 \<mapsto> \<lparr>val = x, nxt = None\<rparr>), fresh := Suc n0\<rparr>"
  have free: "heap s a = None" if "n0 \<le> a" for a
    using wf that by (simp add: wf_def n0_def)
  have sz: "vsize d = word_of_nat (length xs)"
    using wf_version [OF wf v xs] by (simp add: d_def)
  have mk: "make_shared s x = (s1, n0)"
    by (simp add: make_shared_def s1_def n0_def)
  note xs' = xs [folded d_def]
  show ?thesis
  proof (cases "root d")
    case None
    then have nil: "xs = []" using xs' by simp
    let ?s' = "push_version s1 \<lparr>root = Some n0, vsize = vsize d + 1\<rparr>"
    have res: "list_insert s v pos x = Some (Inr (?s', Some n0))"
      using v None by (simp add: list_insert_def mk d_def [symmetric] Let_def)
    have "wf ?s'"
      by (rule wf_push [OF wf, where ys = "[x]"])
         (use free sz nil in \<open>auto simp: push_version_def s1_def n0_def seg_Cons_iff\<close>)
    moreover have "\<exists>r' ys zs. versions ?s' = versions s @ [\<lparr>root = r', vsize = vsize d + 1\<rparr>]
        \<and> xs = ys @ zs \<and> seg (heap ?s') r' (ys @ x # zs) None"
      using nil
      by (intro exI [of _ "Some n0"] exI [of _ "[]"])
         (simp add: push_version_def s1_def seg_Cons_iff)
    ultimately show ?thesis using res None
      by (auto simp: d_def [symmetric] push_version_def s1_def n0_def it_deref_def)
  next
    case (Some r)
    show ?thesis
    proof (cases "pos = root d")
      case True
      let ?s' = "push_version (set_next s1 n0 (root d)) \<lparr>root = Some n0, vsize = vsize d + 1\<rparr>"
      have res: "list_insert s v pos x = Some (Inr (?s', Some n0))"
        using v Some True by (simp add: list_insert_def mk d_def [symmetric] Let_def)
      have hp: "heap ?s' = (heap s)(n0 \<mapsto> \<lparr>val = x, nxt = root d\<rparr>)"
        by (simp add: push_version_def set_next_def s1_def)
      have old: "seg (heap ?s') (root d) xs None"
        using xs' by (rule seg_below [where n = n0]) (use free hp in auto)
      then have new: "seg (heap ?s') (Some n0) (x # xs) None"
        by (simp add: seg_Cons_iff hp)
      have "wf ?s'"
        by (rule wf_push [OF wf, where ys = "x # xs"])
           (use free sz new hp in \<open>auto simp: push_version_def set_next_def s1_def n0_def\<close>)
      moreover have "\<exists>r' ys zs. versions ?s' = versions s @ [\<lparr>root = r', vsize = vsize d + 1\<rparr>]
          \<and> xs = ys @ zs \<and> seg (heap ?s') r' (ys @ x # zs) None \<and> seg (heap s) (root d) ys pos"
        using new True
        by (intro exI [of _ "Some n0"] exI [of _ "[]"] exI [of _ xs])
           (simp add: push_version_def set_next_def s1_def)
      ultimately show ?thesis using res hp
        by (auto simp: d_def [symmetric] n0_def it_deref_def push_version_def set_next_def s1_def)
    next
      case False
      have "\<exists>r. copy_until s1 (root d) pos (root d) None None = Some r
              \<and> loop_post (heap s) (Suc n0) s1 pos (root d) None xs [] r"
        by (rule copy_until_walk [where nb = n0 and full = xs])
           (use free xs' in \<open>auto simp: s1_def copied_def\<close>)
      then obtain lr where lr: "copy_until s1 (root d) pos (root d) None None = Some lr"
          "loop_post (heap s) (Suc n0) s1 pos (root d) None xs [] lr"
        by blast
      show ?thesis
      proof (cases lr)
        case (Inl e)
        then have "list_insert s v pos x = Some (Inl e)"
          using v Some False lr(1) by (simp add: list_insert_def mk d_def [symmetric] Let_def)
        then show ?thesis using Inl lr(2) Some by (simp add: loop_post_def d_def [symmetric])
      next
        case (Inr t)
        obtain s2 c' pn' cr' where t: "t = (s2, c', pn', cr')" by (cases t) auto
        from lr(2) Inr t obtain ys zs where post:
          "c' = pos" "versions s2 = versions s1"
          "\<forall>a<fresh s1. heap s2 a = heap s1 a"
          "fresh s1 \<le> fresh s2" "\<forall>a\<ge>fresh s2. heap s2 a = None"
          "\<forall>p. pn' = Some p \<longrightarrow> Suc n0 \<le> p"
          "xs = ys @ zs" "seg (heap s) (root d) ys pos" "seg (heap s) pos zs None"
          "copied (above (Suc n0) (heap s2)) cr' pn' ys"
          by (auto simp: loop_post_def)
        have "ys \<noteq> []" using post(8) False by auto
        with post(10) obtain p where p: "pn' = Some p" by (metis copied_Some)
        then have n0p: "Suc n0 \<le> p" using post(6) by simp
        from post(10) p obtain pd where pd: "heap s2 p = Some pd"
          by (auto simp: copied_def above_def split: option.splits if_splits)
        have h2n0: "heap s2 n0 = Some \<lparr>val = x, nxt = None\<rparr>"
          using post(3) by (simp add: s1_def)
        let ?s3 = "set_next (set_next s2 p (Some n0)) n0 pos"
        let ?s' = "push_version ?s3 \<lparr>root = cr', vsize = vsize d + 1\<rparr>"
        have res: "list_insert s v pos x = Some (Inr (?s', Some n0))"
          using v Some False lr(1) Inr t p post(1)
          by (simp add: list_insert_def mk d_def [symmetric] Let_def)
        have hp: "heap ?s' = (heap s2)(p \<mapsto> pd\<lparr>nxt := Some n0\<rparr>, n0 \<mapsto> \<lparr>val = x, nxt = pos\<rparr>)"
          using pd h2n0 n0p by (simp add: push_version_def set_next_def)
        have below: "\<forall>a<n0. heap ?s' a = heap s a"
          using hp post(3) n0p by (auto simp: s1_def)
        have tail: "seg (heap ?s') pos zs None"
          using post(9) by (rule seg_below [where n = n0]) (use free below in auto)
        then have mid: "seg (heap ?s') (Some n0) (x # zs) None"
          using hp by (simp add: seg_Cons_iff)
        have new: "seg (heap ?s') cr' (ys @ x # zs) None"
          using post(10) [unfolded p]
          by (rule copied_link [where pd = pd and t = "Some n0"])
             (use hp pd n0p mid in auto)
        have p_lt: "p < fresh s2"
          using pd post(5) by (metis not_le_imp_less option.distinct(1))
        have fr: "fresh ?s' = fresh s2"
          and vs: "versions ?s' = versions s @ [\<lparr>root = cr', vsize = vsize d + 1\<rparr>]"
          using pd h2n0 n0p post(2)
          by (simp_all add: push_version_def set_next_def s1_def)
        have alloc: "\<forall>a\<ge>fresh ?s'. heap ?s' a = None"
          unfolding fr hp using post(5) p_lt n0p by auto
        have "wf ?s'"
        proof (rule wf_push [OF wf _ alloc vs])
          show "\<forall>a<fresh s. heap ?s' a = heap s a" using below by (simp add: n0_def)
          show "seg (heap ?s') (root \<lparr>root = cr', vsize = vsize d + 1\<rparr>) (ys @ x # zs) None"
            using new by simp
          show "vsize \<lparr>root = cr', vsize = vsize d + 1\<rparr> = word_of_nat (length (ys @ x # zs))"
            using sz post(7) by simp
        qed
        moreover have "\<exists>r' ys zs. versions ?s' = versions s @ [\<lparr>root = r', vsize = vsize d + 1\<rparr>]
            \<and> xs = ys @ zs \<and> seg (heap ?s') r' (ys @ x # zs) None \<and> seg (heap s) (root d) ys pos"
          using new post(7,8) vs
          by (intro exI [of _ cr'] exI [of _ ys] exI [of _ zs]) simp
        moreover have "fresh s \<le> fresh ?s'"
          using post(4) fr by (simp add: s1_def n0_def)
        ultimately show ?thesis using res below hp
          by (auto simp: d_def [symmetric] n0_def it_deref_def)
      qed
    qed
  qed
qed

lemma list_erase_spec:
  assumes wf: "wf s" and v: "v < length (versions s)"
    and xs: "seg (heap s) (root (versions s ! v)) xs None"
  shows "\<exists>r. list_erase s v pos = Some r \<and>
    (case r of
       Inl e \<Rightarrow> e = OutOfRange \<and> root (versions s ! v) \<noteq> None \<and> pos \<noteq> None
                 \<and> (\<forall>ys. \<not> seg (heap s) (root (versions s ! v)) ys pos)
     | Inr (s', it) \<Rightarrow>
         if root (versions s ! v) = None \<or> pos = None then s' = s \<and> it = None
         else
           wf s' \<and> (\<forall>a<fresh s. heap s' a = heap s a) \<and> fresh s \<le> fresh s'
           \<and> (\<exists>r' ys z zs.
                 versions s' = versions s @ [\<lparr>root = r', vsize = vsize (versions s ! v) - 1\<rparr>]
                 \<and> xs = ys @ z # zs \<and> seg (heap s) (root (versions s ! v)) ys pos
                 \<and> seg (heap s') r' (ys @ zs) None \<and> seg (heap s') it zs None))"
proof -
  define d where "d = versions s ! v"
  define n0 where "n0 = fresh s"
  have free: "heap s a = None" if "n0 \<le> a" for a
    using wf that by (simp add: wf_def n0_def)
  have sz: "vsize d = word_of_nat (length xs)"
    using wf_version [OF wf v xs] by (simp add: d_def)
  note xs' = xs [folded d_def]
  show ?thesis
  proof (cases "root d = None \<or> pos = None")
    case True
    then show ?thesis using v
      by (auto simp: list_erase_def d_def [symmetric] Let_def list_end_def)
  next
    case guard: False
    then obtain r where r: "root d = Some r" and pos: "pos \<noteq> None" by auto
    show ?thesis
    proof (cases "pos = root d")
      case True
      from xs' r obtain nd zs where nd: "heap s r = Some nd" "xs = val nd # zs"
          "seg (heap s) (nxt nd) zs None"
        by (cases xs) (auto simp: seg_Cons_iff)
      let ?s' = "push_version s \<lparr>root = nxt nd, vsize = vsize d - 1\<rparr>"
      have res: "list_erase s v pos = Some (Inr (?s', nxt nd))"
        using v r True nd(1)
        by (simp add: list_erase_def d_def [symmetric] Let_def list_end_def it_incr_def)
      have "wf ?s'"
      proof (rule wf_push [OF wf])
        show "versions ?s' = versions s @ [\<lparr>root = nxt nd, vsize = vsize d - 1\<rparr>]"
          by (simp add: push_version_def)
        show "seg (heap ?s') (root \<lparr>root = nxt nd, vsize = vsize d - 1\<rparr>) zs None"
          using nd(3) by (simp add: push_version_def)
        show "vsize \<lparr>root = nxt nd, vsize = vsize d - 1\<rparr> = word_of_nat (length zs)"
          using sz nd(2) by simp
      qed (use wf in \<open>auto simp: push_version_def wf_def\<close>)
      moreover have "\<exists>r' ys z zs.
          versions ?s' = versions s @ [\<lparr>root = r', vsize = vsize d - 1\<rparr>]
          \<and> xs = ys @ z # zs \<and> seg (heap s) (root d) ys pos
          \<and> seg (heap ?s') r' (ys @ zs) None \<and> seg (heap ?s') (nxt nd) zs None"
        using nd True
        by (intro exI [of _ "nxt nd"] exI [of _ "[]"] exI [of _ "val nd"] exI [of _ zs])
           (simp add: push_version_def)
      ultimately show ?thesis using res guard
        by (auto simp: d_def [symmetric] push_version_def)
    next
      case False
      have "\<exists>r. copy_until s (root d) pos (root d) None None = Some r
              \<and> loop_post (heap s) n0 s pos (root d) None xs [] r"
        by (rule copy_until_walk [where nb = n0 and full = xs])
           (use free xs' in \<open>auto simp: copied_def n0_def\<close>)
      then obtain lr where lr: "copy_until s (root d) pos (root d) None None = Some lr"
          "loop_post (heap s) n0 s pos (root d) None xs [] lr"
        by blast
      show ?thesis
      proof (cases lr)
        case (Inl e)
        then have "list_erase s v pos = Some (Inl e)"
          using v guard False lr(1)
          by (simp add: list_erase_def d_def [symmetric] Let_def list_end_def)
        then show ?thesis using Inl lr(2) guard by (simp add: loop_post_def d_def [symmetric])
      next
        case (Inr t)
        obtain s2 c' pn' cr' where t: "t = (s2, c', pn', cr')" by (cases t) auto
        from lr(2) Inr t obtain ys zs' where post:
          "c' = pos" "versions s2 = versions s"
          "\<forall>a<fresh s. heap s2 a = heap s a"
          "fresh s \<le> fresh s2" "\<forall>a\<ge>fresh s2. heap s2 a = None"
          "\<forall>p. pn' = Some p \<longrightarrow> n0 \<le> p"
          "xs = ys @ zs'" "seg (heap s) (root d) ys pos" "seg (heap s) pos zs' None"
          "copied (above n0 (heap s2)) cr' pn' ys"
          by (auto simp: loop_post_def)
        from pos post(9) obtain a nd zs where a: "pos = Some a" "heap s a = Some nd"
            "zs' = val nd # zs" "seg (heap s) (nxt nd) zs None"
          by (cases zs') (auto simp: seg_Cons_iff)
        have "a < n0" using a(2) free by (metis not_le_imp_less option.distinct(1))
        then have h2a: "heap s2 a = Some nd" using post(3) a(2) by (simp add: n0_def)
        have "ys \<noteq> []" using post(8) False by auto
        with post(10) obtain p where p: "pn' = Some p" by (metis copied_Some)
        then have n0p: "n0 \<le> p" using post(6) by simp
        from post(10) p obtain pd where pd: "heap s2 p = Some pd"
          by (auto simp: copied_def above_def split: option.splits if_splits)
        let ?s' = "push_version (set_next s2 p (nxt nd)) \<lparr>root = cr', vsize = vsize d - 1\<rparr>"
        have res: "list_erase s v pos = Some (Inr (?s', nxt nd))"
          using v guard r False lr(1) Inr t p post(1) a(1) h2a
          by (simp add: list_erase_def d_def [symmetric] Let_def list_end_def)
        have hp: "heap ?s' = (heap s2)(p \<mapsto> pd\<lparr>nxt := nxt nd\<rparr>)"
          using pd by (simp add: push_version_def set_next_def)
        have below: "\<forall>a<n0. heap ?s' a = heap s a"
          using hp post(3) n0p by (auto simp: n0_def)
        have tail: "seg (heap ?s') (nxt nd) zs None"
          using a(4) by (rule seg_below [where n = n0]) (use free below in auto)
        have new: "seg (heap ?s') cr' (ys @ zs) None"
          using post(10) [unfolded p]
          by (rule copied_link [where pd = pd and t = "nxt nd"]) (use hp pd tail in auto)
        have p_lt: "p < fresh s2"
          using pd post(5) by (metis not_le_imp_less option.distinct(1))
        have fr: "fresh ?s' = fresh s2"
          and vs: "versions ?s' = versions s @ [\<lparr>root = cr', vsize = vsize d - 1\<rparr>]"
          using pd post(2) by (simp_all add: push_version_def set_next_def)
        have alloc: "\<forall>a\<ge>fresh ?s'. heap ?s' a = None"
          unfolding fr hp using post(5) p_lt by auto
        have "wf ?s'"
        proof (rule wf_push [OF wf _ alloc vs])
          show "\<forall>a<fresh s. heap ?s' a = heap s a" using below by (simp add: n0_def)
          show "seg (heap ?s') (root \<lparr>root = cr', vsize = vsize d - 1\<rparr>) (ys @ zs) None"
            using new by simp
          show "vsize \<lparr>root = cr', vsize = vsize d - 1\<rparr> = word_of_nat (length (ys @ zs))"
            using sz post(7) a(3) by simp
        qed
        moreover have "\<exists>r' ys z zs.
            versions ?s' = versions s @ [\<lparr>root = r', vsize = vsize d - 1\<rparr>]
            \<and> xs = ys @ z # zs \<and> seg (heap s) (root d) ys pos
            \<and> seg (heap ?s') r' (ys @ zs) None \<and> seg (heap ?s') (nxt nd) zs None"
          using new post(7,8) vs a(3) tail
          by (intro exI [of _ cr'] exI [of _ ys] exI [of _ "val nd"] exI [of _ zs]) simp
        moreover have "fresh s \<le> fresh ?s'"
          using post(4) fr by simp
        ultimately show ?thesis using res below guard
          by (auto simp: d_def [symmetric] n0_def)
      qed
    qed
  qed
qed

lemma pop_back_loop_walk:
  assumes base: "\<And>b. nb \<le> b \<Longrightarrow> hb b = None"
    and full: "seg hb rt full None"
  shows "\<lbrakk>seg hb (Some a) (y # rest) None; \<forall>b<nb. heap s b = hb b; nb \<le> fresh s;
          \<forall>b\<ge>fresh s. heap s b = None; copied (above nb (heap s)) copyRoot curNew vs;
          \<forall>p. curNew = Some p \<longrightarrow> nb \<le> p;
          if vs = [] then Some a = rt else length (y # rest) < length full\<rbrakk>
     \<Longrightarrow> \<exists>s' cr'. pop_back_loop s rt (Some a) curNew copyRoot = Some (Inr (s', cr'))
            \<and> versions s' = versions s
            \<and> (\<forall>b<fresh s. Some b \<noteq> curNew \<longrightarrow> heap s' b = heap s b)
            \<and> fresh s \<le> fresh s' \<and> (\<forall>b\<ge>fresh s'. heap s' b = None)
            \<and> seg (heap s') cr' (vs @ butlast (y # rest)) None"
proof (induction rest arbitrary: s a y copyRoot curNew vs)
  case Nil
  then obtain nd where nd: "hb a = Some nd" "nxt nd = None"
    by (auto simp: seg_Cons_iff)
  have "a < nb" using nd(1) base by (metis not_le_imp_less option.distinct(1))
  then have "heap s a = Some nd" using Nil.prems(2) nd(1) by simp
  then have "pop_back_loop s rt (Some a) curNew copyRoot = Some (Inr (s, copyRoot))"
    using nd(2) by (subst pop_back_loop.simps) simp
  moreover have "seg (heap s) copyRoot vs None"
    using Nil.prems(5) by (rule copied_walk)
  ultimately show ?case using Nil.prems(4) by simp
next
  case (Cons y' rest')
  from Cons.prems(1) obtain nd a' where nd: "hb a = Some nd" "val nd = y" "nxt nd = Some a'"
      "seg hb (Some a') (y' # rest') None"
    by (auto simp: seg_Cons_iff)
  have "a < nb" using nd(1) base by (metis not_le_imp_less option.distinct(1))
  then have sa: "heap s a = Some nd" using Cons.prems(2) nd(1) by simp
  define n where "n = fresh s"
  define s1 where "s1 = s\<lparr>heap := (heap s)(n \<mapsto> \<lparr>val = y, nxt = None\<rparr>), fresh := Suc n\<rparr>"
  define s2 where "s2 = (case curNew of None \<Rightarrow> s1 | Some p \<Rightarrow> set_next s1 p (Some n))"
  define cr2 where "cr2 = (if Some a = rt then Some n else copyRoot)"
  have bgn_iff: "Some a = rt \<longleftrightarrow> vs = []"
  proof
    assume "Some a = rt"
    with Cons.prems(1) full have "full = y # y' # rest'" by (metis seg_unique)
    with Cons.prems(7) show "vs = []" by (auto split: if_splits)
  next
    assume "vs = []"
    with Cons.prems(7) show "Some a = rt" by simp
  qed
  have s2_facts: "versions s2 = versions s \<and> fresh s2 = Suc n
      \<and> (\<forall>b<nb. heap s2 b = hb b) \<and> (\<forall>b\<ge>Suc n. heap s2 b = None)
      \<and> (\<forall>b<n. Some b \<noteq> curNew \<longrightarrow> heap s2 b = heap s b)
      \<and> copied (above nb (heap s2)) cr2 (Some n) (vs @ [y])"
    unfolding n_def cr2_def s2_def s1_def
    by (rule copy_step [OF Cons.prems(2) order_refl Cons.prems(3,4,5,6) bgn_iff]) (rule refl)+
  have step: "pop_back_loop s rt (Some a) curNew copyRoot
      = pop_back_loop s2 rt (Some a') (Some n) cr2"
    using sa nd(2,3)
    by (subst pop_back_loop.simps)
       (simp add: make_shared_def s1_def [symmetric] n_def [symmetric] s2_def [symmetric] cr2_def)
  have len: "if vs @ [y] = [] then Some a' = rt else length (y' # rest') < length full"
  proof -
    have "length (y # y' # rest') \<le> length full"
    proof (cases "vs = []")
      case True
      then have "Some a = rt" using bgn_iff by simp
      with Cons.prems(1) full have "full = y # y' # rest'" by (metis seg_unique)
      then show ?thesis by simp
    next
      case False
      with Cons.prems(7) show ?thesis by simp
    qed
    then show ?thesis by simp
  qed
  have "\<exists>s' cr'. pop_back_loop s2 rt (Some a') (Some n) cr2 = Some (Inr (s', cr'))
          \<and> versions s' = versions s2
          \<and> (\<forall>b<fresh s2. Some b \<noteq> Some n \<longrightarrow> heap s' b = heap s2 b)
          \<and> fresh s2 \<le> fresh s' \<and> (\<forall>b\<ge>fresh s'. heap s' b = None)
          \<and> seg (heap s') cr' ((vs @ [y]) @ butlast (y' # rest')) None"
    using s2_facts Cons.prems(3) len
    by (intro Cons.IH [OF nd(4)]) (auto simp: n_def)
  then obtain s' cr' where r: "pop_back_loop s2 rt (Some a') (Some n) cr2 = Some (Inr (s', cr'))"
      "versions s' = versions s2" "\<forall>b<fresh s2. Some b \<noteq> Some n \<longrightarrow> heap s' b = heap s2 b"
      "fresh s2 \<le> fresh s'" "\<forall>b\<ge>fresh s'. heap s' b = None"
      "seg (heap s') cr' ((vs @ [y]) @ butlast (y' # rest')) None"
    by blast
  have "\<forall>b<fresh s. Some b \<noteq> curNew \<longrightarrow> heap s' b = heap s b"
    using r(3) s2_facts by (auto simp: n_def)
  moreover have "fresh s \<le> fresh s'" using r(4) s2_facts by (simp add: n_def)
  ultimately show ?case using step r s2_facts by simp
qed

lemma pop_back_spec:
  assumes wf: "wf s" and v: "v < length (versions s)"
    and xs: "seg (heap s) (root (versions s ! v)) xs None"
    and ne: "root (versions s ! v) \<noteq> None"
  shows "\<exists>s' r'. pop_back s v = Some (Inr s') \<and> wf s'
      \<and> (\<forall>a<fresh s. heap s' a = heap s a) \<and> fresh s \<le> fresh s'
      \<and> versions s' = versions s @ [\<lparr>root = r', vsize = vsize (versions s ! v) - 1\<rparr>]
      \<and> seg (heap s') r' (butlast xs) None"
proof -
  define d where "d = versions s ! v"
  define n0 where "n0 = fresh s"
  have free: "heap s a = None" if "n0 \<le> a" for a
    using wf that by (simp add: wf_def n0_def)
  have sz: "vsize d = word_of_nat (length xs)"
    using wf_version [OF wf v xs] by (simp add: d_def)
  note xs' = xs [folded d_def]
  from ne obtain a where a: "root d = Some a" by (auto simp: d_def)
  with xs' obtain y rest where yr: "xs = y # rest" by (cases xs) auto
  have "\<exists>s' cr'. pop_back_loop s (root d) (Some a) None None = Some (Inr (s', cr'))
      \<and> versions s' = versions s
      \<and> (\<forall>b<fresh s. Some b \<noteq> None \<longrightarrow> heap s' b = heap s b)
      \<and> fresh s \<le> fresh s' \<and> (\<forall>b\<ge>fresh s'. heap s' b = None)
      \<and> seg (heap s') cr' ([] @ butlast (y # rest)) None"
    by (rule pop_back_loop_walk [where nb = n0 and hb = "heap s" and full = xs])
       (use free xs' a yr in \<open>auto simp: copied_def n0_def\<close>)
  then obtain s2 cr' where l: "pop_back_loop s (root d) (root d) None None = Some (Inr (s2, cr'))"
      "versions s2 = versions s" "\<forall>b<fresh s. heap s2 b = heap s b"
      "fresh s \<le> fresh s2" "\<forall>b\<ge>fresh s2. heap s2 b = None"
      "seg (heap s2) cr' (butlast xs) None"
    using a yr by auto
  let ?s' = "push_version s2 \<lparr>root = cr', vsize = vsize d - 1\<rparr>"
  have res: "pop_back s v = Some (Inr ?s')"
    using v l(1) by (simp add: pop_back_def d_def [symmetric] Let_def)
  have "wf ?s'"
  proof (rule wf_push [OF wf])
    show "versions ?s' = versions s @ [\<lparr>root = cr', vsize = vsize d - 1\<rparr>]"
      using l(2) by (simp add: push_version_def)
    show "seg (heap ?s') (root \<lparr>root = cr', vsize = vsize d - 1\<rparr>) (butlast xs) None"
      using l(6) by (simp add: push_version_def)
    show "vsize \<lparr>root = cr', vsize = vsize d - 1\<rparr> = word_of_nat (length (butlast xs))"
      using sz yr by simp
  qed (use l in \<open>auto simp: push_version_def\<close>)
  then show ?thesis using res l
    by (auto simp: d_def [symmetric] push_version_def)
qed

lemma elements_iff:
  "elements s v xs \<longleftrightarrow> v < length (versions s) \<and> seg (heap s) (root (versions s ! v)) xs None"
  by (simp add: elements_def list_begin_def list_end_def)

lemma wf_elements:
  "wf s \<Longrightarrow> v < length (versions s) \<Longrightarrow> \<exists>xs. elements s v xs"
  by (auto simp: wf_def elements_iff list_end_def dest!: bspec [OF _ nth_mem])

lemma elements_unique: "elements s v xs \<Longrightarrow> elements s v ys \<Longrightarrow> xs = ys"
  by (auto simp: elements_iff dest: seg_unique)

lemma elements_kept:
  assumes "wf s" "elements s v xs" "\<forall>a<fresh s. heap s' a = heap s a"
    and "take (length (versions s)) (versions s') = versions s"
  shows "elements s' v xs \<and> list_size s' v = list_size s v \<and> list_begin s' v = list_begin s v"
proof -
  from assms(2) have v: "v < length (versions s)"
    and sg: "seg (heap s) (root (versions s ! v)) xs None"
    by (simp_all add: elements_iff)
  from assms(4) have len: "length (versions s) \<le> length (versions s')"
    by (metis length_take min.cobounded1 min.commute)
  from assms(4) v have same: "versions s' ! v = versions s ! v"
    by (metis nth_take)
  have "seg (heap s') (root (versions s ! v)) xs None"
    using sg by (rule seg_below [where n = "fresh s"]) (use assms(1,3) in \<open>auto simp: wf_def\<close>)
  then show ?thesis using v len same
    by (simp add: elements_iff list_size_def list_begin_def)
qed

text \<open>From a well-formed list, a mutator applied to a registered version always returns.\<close>

lemma push_back_spec:
  assumes "wf s" "elements s v xs"
  shows "\<exists>s' r'. push_back s v x = Some (Inr s') \<and> wf s' \<and> (\<forall>a<fresh s. heap s' a = heap s a)
      \<and> versions s' = versions s @ [\<lparr>root = r', vsize = vsize (versions s ! v) + 1\<rparr>]
      \<and> seg (heap s') r' (xs @ [x]) None"
proof -
  from assms(2) have v: "v < length (versions s)"
    and sg: "seg (heap s) (root (versions s ! v)) xs None"
    by (simp_all add: elements_iff)
  from list_insert_spec [OF assms(1) v sg, of None x] obtain r where
    r: "list_insert s v None x = Some r" and
    post: "case r of
       Inl e \<Rightarrow> e = OutOfRange \<and> root (versions s ! v) \<noteq> None
                 \<and> (\<forall>ys. \<not> seg (heap s) (root (versions s ! v)) ys None)
     | Inr (s', it) \<Rightarrow>
         wf s' \<and> (\<forall>a<fresh s. heap s' a = heap s a) \<and> fresh s \<le> fresh s'
         \<and> it_deref (heap s') it = Inr x
         \<and> (\<exists>r' ys zs. versions s' = versions s @ [\<lparr>root = r', vsize = vsize (versions s ! v) + 1\<rparr>]
               \<and> xs = ys @ zs \<and> seg (heap s') r' (ys @ x # zs) None
               \<and> (root (versions s ! v) = None \<or> seg (heap s) (root (versions s ! v)) ys None))"
    by blast
  show ?thesis
  proof (cases r)
    case (Inl e)
    with post sg show ?thesis by auto
  next
    case (Inr t)
    obtain s' it where t: "t = (s', it)" by (cases t) auto
    from post Inr t obtain r' ys zs where p: "wf s'" "\<forall>a<fresh s. heap s' a = heap s a"
        "versions s' = versions s @ [\<lparr>root = r', vsize = vsize (versions s ! v) + 1\<rparr>]"
        "xs = ys @ zs" "seg (heap s') r' (ys @ x # zs) None"
        "root (versions s ! v) = None \<or> seg (heap s) (root (versions s ! v)) ys None"
      by auto
    have "ys = xs"
    proof (cases "root (versions s ! v)")
      case None
      with sg have "xs = []" by simp
      with p(4) show ?thesis by simp
    next
      case (Some a)
      with p(6) sg show ?thesis by (auto dest: seg_unique)
    qed
    with p(4) have "zs = []" by simp
    with p \<open>ys = xs\<close> r Inr t show ?thesis
      by (auto simp: push_back_def list_end_def)
  qed
qed

lemma push_front_spec:
  assumes "wf s" "elements s v xs"
  shows "\<exists>s' r'. push_front s v x = Some (Inr s') \<and> wf s' \<and> (\<forall>a<fresh s. heap s' a = heap s a)
      \<and> versions s' = versions s @ [\<lparr>root = r', vsize = vsize (versions s ! v) + 1\<rparr>]
      \<and> seg (heap s') r' (x # xs) None"
proof -
  from assms(2) have v: "v < length (versions s)"
    and sg: "seg (heap s) (root (versions s ! v)) xs None"
    by (simp_all add: elements_iff)
  let ?rt = "root (versions s ! v)"
  from list_insert_spec [OF assms(1) v sg, of ?rt x] obtain r where
    r: "list_insert s v ?rt x = Some r" and
    post: "case r of
       Inl e \<Rightarrow> e = OutOfRange \<and> ?rt \<noteq> None \<and> (\<forall>ys. \<not> seg (heap s) ?rt ys ?rt)
     | Inr (s', it) \<Rightarrow>
         wf s' \<and> (\<forall>a<fresh s. heap s' a = heap s a) \<and> fresh s \<le> fresh s'
         \<and> it_deref (heap s') it = Inr x
         \<and> (\<exists>r' ys zs. versions s' = versions s @ [\<lparr>root = r', vsize = vsize (versions s ! v) + 1\<rparr>]
               \<and> xs = ys @ zs \<and> seg (heap s') r' (ys @ x # zs) None
               \<and> (?rt = None \<or> seg (heap s) ?rt ys ?rt))"
    by blast
  have here: "seg (heap s) ?rt [] ?rt" by simp
  show ?thesis
  proof (cases r)
    case (Inl e)
    with post have "\<forall>ys. \<not> seg (heap s) ?rt ys ?rt" by simp
    from this [rule_format, of "[]"] show ?thesis by simp
  next
    case (Inr t)
    obtain s' it where t: "t = (s', it)" by (cases t) auto
    from post Inr t obtain r' ys zs where p: "wf s'" "\<forall>a<fresh s. heap s' a = heap s a"
        "versions s' = versions s @ [\<lparr>root = r', vsize = vsize (versions s ! v) + 1\<rparr>]"
        "xs = ys @ zs" "seg (heap s') r' (ys @ x # zs) None"
        "?rt = None \<or> seg (heap s) ?rt ys ?rt"
      by auto
    have "ys = []"
    proof (cases ?rt)
      case None
      with sg have "xs = []" by simp
      with p(4) show ?thesis by simp
    next
      case (Some a)
      with p(6) show ?thesis by (auto dest: seg_self)
    qed
    with p r Inr t v show ?thesis
      by (auto simp: push_front_def list_begin_def)
  qed
qed

lemma pop_front_spec:
  assumes "wf s" "elements s v (x # xs)"
  shows "\<exists>s' r'. pop_front s v = Some (Inr s') \<and> wf s' \<and> (\<forall>a<fresh s. heap s' a = heap s a)
      \<and> versions s' = versions s @ [\<lparr>root = r', vsize = vsize (versions s ! v) - 1\<rparr>]
      \<and> seg (heap s') r' xs None"
proof -
  from assms(2) have v: "v < length (versions s)"
    and sg: "seg (heap s) (root (versions s ! v)) (x # xs) None"
    by (simp_all add: elements_iff)
  let ?rt = "root (versions s ! v)"
  from sg have ne: "?rt \<noteq> None" by (auto simp: seg_Cons_iff)
  from list_erase_spec [OF assms(1) v sg, of ?rt] obtain r where
    r: "list_erase s v ?rt = Some r" and
    post: "case r of
       Inl e \<Rightarrow> e = OutOfRange \<and> ?rt \<noteq> None \<and> ?rt \<noteq> None
                 \<and> (\<forall>ys. \<not> seg (heap s) ?rt ys ?rt)
     | Inr (s', it) \<Rightarrow>
         if ?rt = None \<or> ?rt = None then s' = s \<and> it = None
         else
           wf s' \<and> (\<forall>a<fresh s. heap s' a = heap s a) \<and> fresh s \<le> fresh s'
           \<and> (\<exists>r' ys z zs.
                 versions s' = versions s @ [\<lparr>root = r', vsize = vsize (versions s ! v) - 1\<rparr>]
                 \<and> x # xs = ys @ z # zs \<and> seg (heap s) ?rt ys ?rt
                 \<and> seg (heap s') r' (ys @ zs) None \<and> seg (heap s') it zs None)"
    by blast
  have here: "seg (heap s) ?rt [] ?rt" by simp
  show ?thesis
  proof (cases r)
    case (Inl e)
    with post have "\<forall>ys. \<not> seg (heap s) ?rt ys ?rt" by simp
    from this [rule_format, of "[]"] show ?thesis by simp
  next
    case (Inr t)
    obtain s' it where t: "t = (s', it)" by (cases t) auto
    from post Inr t ne obtain r' ys z zs where p: "wf s'" "\<forall>a<fresh s. heap s' a = heap s a"
        "versions s' = versions s @ [\<lparr>root = r', vsize = vsize (versions s ! v) - 1\<rparr>]"
        "x # xs = ys @ z # zs" "seg (heap s) ?rt ys ?rt" "seg (heap s') r' (ys @ zs) None"
      by auto
    from p(5) have "ys = []" by (rule seg_self)
    with p r Inr t v show ?thesis
      by (auto simp: pop_front_def list_begin_def)
  qed
qed

lemma pop_front_empty:
  assumes "elements s v []"
  shows "pop_front s v = Some (Inr s)"
  using assms
  by (simp add: elements_iff pop_front_def list_begin_def list_erase_def Let_def)

lemma pop_back_empty:
  assumes "elements s v []"
  shows "pop_back s v = Some (Inl Undefined)"
  using assms
  by (simp add: elements_iff pop_back_def Let_def pop_back_loop.simps)

text \<open>Every mutator, on a registered version of a well-formed list.\<close>

lemma mutate_spec:
  assumes wf: "wf s" and v: "srcVersion_of m < length (versions s)"
  shows "\<exists>r. mutate s m = Some r \<and>
     (\<forall>s'. r = Inr s' \<longrightarrow>
        wf s' \<and> (\<forall>a<fresh s. heap s' a = heap s a)
        \<and> (versions s' = versions s \<or> (\<exists>d. versions s' = versions s @ [d])))"
proof -
  from wf_elements [OF wf v] obtain xs where el: "elements s (srcVersion_of m) xs" by blast
  then have sg: "seg (heap s) (root (versions s ! srcVersion_of m)) xs None"
    by (simp add: elements_iff)
  show ?thesis
  proof (cases m)
    case (Insert u pos x)
    from list_insert_spec [OF wf v sg, of pos x] obtain r where
      "list_insert s (srcVersion_of m) pos x = Some r"
      "\<forall>s' it. r = Inr (s', it) \<longrightarrow> wf s' \<and> (\<forall>a<fresh s. heap s' a = heap s a)
          \<and> (\<exists>d. versions s' = versions s @ [d])"
      by (fastforce split: sum.splits)
    with Insert show ?thesis by (cases r) auto
  next
    case (Erase u pos)
    from list_erase_spec [OF wf v sg, of pos] obtain r where
      "list_erase s (srcVersion_of m) pos = Some r"
      "\<forall>s' it. r = Inr (s', it) \<longrightarrow> wf s' \<and> (\<forall>a<fresh s. heap s' a = heap s a)
          \<and> (versions s' = versions s \<or> (\<exists>d. versions s' = versions s @ [d]))"
      using wf by (fastforce split: sum.splits if_splits)
    with Erase show ?thesis by (cases r) auto
  next
    case (PushFront u x)
    with push_front_spec [OF wf el, of x] show ?thesis by auto
  next
    case (PopFront u)
    show ?thesis
    proof (cases xs)
      case Nil
      with el PopFront wf show ?thesis by (auto simp: pop_front_empty)
    next
      case (Cons y ys)
      with pop_front_spec [OF wf el [unfolded Cons]] PopFront show ?thesis by auto
    qed
  next
    case (PushBack u x)
    with push_back_spec [OF wf el, of x] show ?thesis by auto
  next
    case (PopBack u)
    show ?thesis
    proof (cases xs)
      case Nil
      with el PopBack show ?thesis by (auto simp: pop_back_empty)
    next
      case (Cons y ys)
      with sg have "root (versions s ! srcVersion_of m) \<noteq> None" by (auto simp: seg_Cons_iff)
      from pop_back_spec [OF wf v sg this] PopBack show ?thesis by auto
    qed
  qed
qed

lemma advance_end: "advance h None k = Inr None"
  by (induction k) (simp_all add: it_incr_def)

lemma advance_seg:
  "seg h it xs None \<Longrightarrow> \<exists>it'. advance h it k = Inr it' \<and> (it' = None \<longleftrightarrow> length xs \<le> k)"
proof (induction xs arbitrary: it k)
  case Nil
  then show ?case by (simp add: advance_end)
next
  case (Cons x xs)
  then obtain a nd where a: "it = Some a" "h a = Some nd" "seg h (nxt nd) xs None"
    by (auto simp: seg_Cons_iff)
  show ?case
  proof (cases k)
    case 0
    then show ?thesis using a by simp
  next
    case (Suc j)
    with Cons.IH [OF a(3), of j] a show ?thesis by (simp add: it_incr_def)
  qed
qed

lemma demo_list_reached:
  "\<exists>s1. push_back (PersistentList :: int plist) 0 1 = Some (Inr s1)
      \<and> push_back s1 1 2 = Some (Inr demo_list)"
  by (simp add: push_back_def list_insert_def PersistentList_def invalid_version_def sz_sub_def
      make_shared_def push_version_def set_next_def list_end_def Let_def copy_until.simps
      it_deref_def it_incr_def demo_list_def numeral_2_eq_2)

lemma wf_demo_list: "wf demo_list"
proof -
  have "seg (heap demo_list) None [] None" "seg (heap demo_list) (Some 0) [1] None"
    "seg (heap demo_list) (Some 2) [1, 2] None"
    by (simp_all add: demo_list_def seg_Cons_iff)
  then show ?thesis
    unfolding wf_def list_end_def
    by (auto simp: demo_list_def intro: exI [of _ "[]"] exI [of _ "[1]"] exI [of _ "[1, 2]"])
qed

lemma elements_demo_list:
  "elements demo_list 0 []" "elements demo_list 1 [1]" "elements demo_list 2 [1, 2]"
  by (simp_all add: elements_iff demo_list_def seg_Cons_iff)

text \<open>A mutator that returns a list was applied to a registered version.\<close>

lemma mutate_registered:
  assumes "mutate s m = Some (Inr s')"
  shows "srcVersion_of m < length (versions s)"
proof (rule ccontr)
  assume "\<not> srcVersion_of m < length (versions s)"
  then have out: "length (versions s) \<le> srcVersion_of m" by simp
  have "mutate s m \<noteq> Some (Inr s')"
  proof (cases m)
    case (Insert v pos x)
    with out show ?thesis by (auto simp: list_insert_def)
  next
    case (Erase v pos)
    with out show ?thesis by (auto simp: list_erase_def)
  next
    case (PushFront v x)
    with out show ?thesis by (simp add: push_front_def list_begin_def)
  next
    case (PopFront v)
    with out show ?thesis by (simp add: pop_front_def list_begin_def)
  next
    case (PushBack v x)
    with out show ?thesis by (auto simp: push_back_def list_insert_def)
  next
    case (PopBack v)
    with out show ?thesis by (simp add: pop_back_def)
  qed
  with assms show False by simp
qed

text \<open>
  Every list that a run of mutators reaches from a new one is well formed, and a run
  leaves the versions that were there as they were.
\<close>

lemma mutates_spec:
  "wf s \<Longrightarrow> mutates s ms = Some (Inr s') \<Longrightarrow>
     wf s' \<and> (\<forall>v xs. elements s v xs \<longrightarrow> elements s' v xs \<and> list_size s' v = list_size s v)"
proof (induction ms arbitrary: s)
  case Nil
  then show ?case by simp
next
  case (Cons m ms)
  from Cons.prems(2) obtain s1 where s1: "mutate s m = Some (Inr s1)" "mutates s1 ms = Some (Inr s')"
    by (auto split: option.splits sum.splits)
  from mutate_spec [OF Cons.prems(1) mutate_registered [OF s1(1)]] s1(1)
  have w1: "wf s1" and fr: "\<forall>a<fresh s. heap s1 a = heap s a"
    and vs: "versions s1 = versions s \<or> (\<exists>d. versions s1 = versions s @ [d])"
    by auto
  from vs have tk: "take (length (versions s)) (versions s1) = versions s" by auto
  from Cons.IH [OF w1 s1(2)] have w': "wf s'"
    and keep: "\<And>v xs. elements s1 v xs \<Longrightarrow> elements s' v xs \<and> list_size s' v = list_size s1 v"
    by auto
  have "elements s' v xs \<and> list_size s' v = list_size s v" if "elements s v xs" for v xs
    using elements_kept [OF Cons.prems(1) that fr tk] keep [of v xs] by simp
  with w' show ?case by blast
qed

lemma wf_reached: "mutates PersistentList ms = Some (Inr s) \<Longrightarrow> wf s"
  using mutates_spec [OF wf_PersistentList] by blast

lemma wf_list_clear: "wf s \<Longrightarrow> wf (list_clear s)"
  by (simp add: wf_def list_clear_def)

section \<open>Claims about the persistent list\<close>

text \<open>
  Claim C2. Persistence: whatever mutator is applied to a registered version of a list,
  every registered version \<open>v\<close> is observed afterwards as before: the same \<^verbatim>\<open>begin(v)\<close>,
  the same elements along the traversal, the same \<^verbatim>\<open>size(v)\<close>. The call always returns
  (no loop runs forever), and when it returns a list that list is well formed again, so the
  statement carries over to any run of mutators. A call that fails has not touched the list.
\<close>

theorem persistence:
  assumes "wf s" "elements s v xs" "srcVersion_of m < versionsNumber s"
  shows "(\<exists>r. mutate s m = Some r)
       \<and> (\<forall>s'. mutate s m = Some (Inr s') \<longrightarrow>
             wf s' \<and> elements s' v xs \<and> list_size s' v = list_size s v
             \<and> list_begin s' v = list_begin s v)"
proof -
  from mutate_spec [OF assms(1), of m] assms(3) obtain r where r: "mutate s m = Some r"
    "\<forall>s'. r = Inr s' \<longrightarrow> wf s' \<and> (\<forall>a<fresh s. heap s' a = heap s a)
        \<and> (versions s' = versions s \<or> (\<exists>d. versions s' = versions s @ [d]))"
    by (auto simp: versionsNumber_def)
  have "wf s' \<and> elements s' v xs \<and> list_size s' v = list_size s v
      \<and> list_begin s' v = list_begin s v"
    if "mutate s m = Some (Inr s')" for s'
  proof -
    from that r have s': "wf s'" "\<forall>a<fresh s. heap s' a = heap s a"
      "versions s' = versions s \<or> (\<exists>d. versions s' = versions s @ [d])"
      by auto
    from s'(3) have "take (length (versions s)) (versions s') = versions s" by auto
    from elements_kept [OF assms(1,2) s'(2) this] s'(1) show ?thesis by simp
  qed
  with r(1) show ?thesis by blast
qed

theorem persistence_witness:
  "wf demo_list \<and> elements demo_list 1 [1] \<and> srcVersion_of (PopBack 2) < versionsNumber demo_list
   \<and> (\<exists>s'. mutate demo_list (PopBack 2 :: int mutation) = Some (Inr s')
         \<and> wf s' \<and> elements s' 1 [1] \<and> list_size s' 1 = list_size demo_list 1
         \<and> list_begin s' 1 = list_begin demo_list 1)"
proof -
  have v: "srcVersion_of (PopBack 2) < versionsNumber demo_list"
    by (simp add: versionsNumber_def demo_list_def)
  have "(2::nat) < length (versions demo_list)" "root (versions demo_list ! 2) \<noteq> None"
    "seg (heap demo_list) (root (versions demo_list ! 2)) [1, 2] None"
    using elements_demo_list(3) by (simp_all add: elements_iff demo_list_def)
  from pop_back_spec [OF wf_demo_list this(1,3,2)] obtain s' where
    "mutate demo_list (PopBack 2) = Some (Inr s')"
    by auto
  with persistence [OF wf_demo_list elements_demo_list(2) v] wf_demo_list elements_demo_list(2) v
  show ?thesis by auto
qed

text \<open>
  Claim C5. An out-of-range failure should be signalled for every unregistered version id
  and for \<^verbatim>\<open>front\<close>, \<^verbatim>\<open>back\<close>, \<^verbatim>\<open>pop_front\<close>, \<^verbatim>\<open>pop_back\<close> on an empty version.
  On the empty version 0 of a new list \<^verbatim>\<open>pop_front\<close> returns normally, the list
  unchanged (the guard of \<^verbatim>\<open>erase\<close> returns \<^verbatim>\<open>end()\<close>), and \<^verbatim>\<open>pop_back\<close>
  dereferences the null root.
\<close>

theorem pop_front_empty_no_failure:
  "pop_front (PersistentList :: int plist) 0 = Some (Inr PersistentList)
   \<and> pop_back (PersistentList :: int plist) 0 = Some (Inl Undefined)"
  by (simp add: pop_front_def pop_back_def list_begin_def list_erase_def invalid_version_def
      sz_sub_def PersistentList_def Let_def pop_back_loop.simps)

text \<open>
  Claim C5, amended. \<^verbatim>\<open>insert\<close>, \<^verbatim>\<open>erase\<close> and \<^verbatim>\<open>push_back\<close> given an unregistered
  version id signal out-of-range (the registry not being empty, and the id not above 17,
  the length of the message literal it is added to), and so do \<^verbatim>\<open>front\<close> and
  \<^verbatim>\<open>back\<close> on an empty registered version (the id not above 23); in each case the list
  is untouched. \<^verbatim>\<open>pop_front\<close> on an empty registered version returns without a failure
  and leaves the list as it is.
\<close>

theorem out_of_range_cases:
  "(versions s \<noteq> [] \<and> versionsNumber s \<le> v \<and> v \<le> 17 \<longrightarrow>
      list_insert s v pos x = Some (Inl OutOfRange) \<and> list_erase s v pos = Some (Inl OutOfRange)
      \<and> push_back s v x = Some (Inl OutOfRange))
   \<and> (elements s u [] \<and> u \<le> 23 \<longrightarrow>
      list_front s u = Inl OutOfRange \<and> list_back s u = Some (Inl OutOfRange))
   \<and> (elements s u [] \<longrightarrow> pop_front s u = Some (Inr s))"
proof -
  have "invalid_version s v" if "versions s \<noteq> []" "versionsNumber s \<le> v"
    using that by (cases "versions s") (auto simp: invalid_version_def sz_sub_def versionsNumber_def)
  then have "versions s \<noteq> [] \<and> versionsNumber s \<le> v \<and> v \<le> 17 \<longrightarrow>
      list_insert s v pos x = Some (Inl OutOfRange) \<and> list_erase s v pos = Some (Inl OutOfRange)
      \<and> push_back s v x = Some (Inl OutOfRange)"
    by (simp add: list_insert_def list_erase_def push_back_def throw_msg_def)
  moreover have "elements s u [] \<and> u \<le> 23 \<longrightarrow>
      list_front s u = Inl OutOfRange \<and> list_back s u = Some (Inl OutOfRange)"
    by (auto simp: elements_iff list_front_def list_back_def throw_msg_def)
  ultimately show ?thesis by (simp add: pop_front_empty)
qed

theorem out_of_range_cases_witness:
  "versions demo_list \<noteq> [] \<and> versionsNumber demo_list \<le> 5 \<and> (5::nat) \<le> 17
   \<and> list_insert demo_list 5 None 9 = Some (Inl OutOfRange)
   \<and> list_erase demo_list 5 None = Some (Inl OutOfRange)
   \<and> push_back demo_list 5 9 = Some (Inl OutOfRange)
   \<and> elements demo_list 0 [] \<and> (0::nat) \<le> 23
   \<and> list_front demo_list 0 = Inl OutOfRange \<and> list_back demo_list 0 = Some (Inl OutOfRange)
   \<and> pop_front demo_list 0 = Some (Inr demo_list)"
  using out_of_range_cases [of demo_list 5 None 9 0] elements_demo_list(1)
  by (simp add: versionsNumber_def demo_list_def)

text \<open>
  Claim C6. Every mutator on a registered version should append exactly one version
  descriptor. \<^verbatim>\<open>pop_front\<close> on the empty version 0 of a new list returns normally and
  the registry still holds one version.
\<close>

theorem pop_front_empty_appends_nothing:
  "map_option (map_sum id versionsNumber) (pop_front (PersistentList :: int plist) 0)
     = Some (Inr 1)
   \<and> versionsNumber (PersistentList :: int plist) = 1"
  by (simp add: pop_front_def list_begin_def list_erase_def invalid_version_def
      sz_sub_def PersistentList_def Let_def versionsNumber_def)

text \<open>
  Claim C6, amended. On a registered version with elements \<open>xs\<close>: \<^verbatim>\<open>push_front\<close> and
  \<^verbatim>\<open>push_back\<close> always return and append exactly one descriptor, so that
  \<^verbatim>\<open>versions()\<close> grows by one and the new version has the id \<^verbatim>\<open>versions() - 1\<close>;
  \<^verbatim>\<open>pop_front\<close> and \<^verbatim>\<open>pop_back\<close> do so when the version is not empty;
  \<^verbatim>\<open>insert\<close> does so when the version is empty or \<open>pos\<close> is a position of the version
  (reached from \<^verbatim>\<open>begin\<close> by increments, \<^verbatim>\<open>end()\<close> included);
  \<^verbatim>\<open>erase\<close> does so when \<open>pos\<close> is a position of the version other than
  \<^verbatim>\<open>end()\<close>, while at its guard (the version empty or \<open>pos = end()\<close>) it returns
  \<^verbatim>\<open>end()\<close> and appends nothing.
\<close>

theorem one_version_appended:
  assumes "wf s" "elements s v xs" "list_begin s v = Inr b"
  shows "(\<exists>s' d. push_front s v x = Some (Inr s') \<and> versions s' = versions s @ [d])
       \<and> (\<exists>s' d. push_back s v x = Some (Inr s') \<and> versions s' = versions s @ [d])
       \<and> (xs \<noteq> [] \<longrightarrow>
            (\<exists>s' d. pop_front s v = Some (Inr s') \<and> versions s' = versions s @ [d])
            \<and> (\<exists>s' d. pop_back s v = Some (Inr s') \<and> versions s' = versions s @ [d]))
       \<and> (xs = [] \<or> (\<exists>ys. seg (heap s) b ys pos) \<longrightarrow>
            (\<exists>s' it d. list_insert s v pos x = Some (Inr (s', it))
               \<and> versions s' = versions s @ [d]))
       \<and> (xs \<noteq> [] \<and> pos \<noteq> list_end \<and> (\<exists>ys. seg (heap s) b ys pos) \<longrightarrow>
            (\<exists>s' it d. list_erase s v pos = Some (Inr (s', it))
               \<and> versions s' = versions s @ [d]))
       \<and> (xs = [] \<or> pos = list_end \<longrightarrow> list_erase s v pos = Some (Inr (s, list_end)))"
proof -
  from assms(2,3) have v: "v < length (versions s)"
    and b: "b = root (versions s ! v)"
    and sg: "seg (heap s) b xs None"
    by (auto simp: elements_iff list_begin_def)
  note sg' = sg [unfolded b]
  have empty_iff: "b = None \<longleftrightarrow> xs = []"
    using sg by (cases xs) (auto simp: seg_Cons_iff)
  have pops: "(\<exists>s' d. pop_front s v = Some (Inr s') \<and> versions s' = versions s @ [d])
      \<and> (\<exists>s' d. pop_back s v = Some (Inr s') \<and> versions s' = versions s @ [d])"
    if "xs \<noteq> []"
  proof -
    from that obtain y ys where xs: "xs = y # ys" by (cases xs) auto
    from that empty_iff b have ne: "root (versions s ! v) \<noteq> None" by simp
    from pop_front_spec [OF assms(1) assms(2) [unfolded xs]]
      pop_back_spec [OF assms(1) v sg' ne]
    show ?thesis by blast
  qed
  have ins: "\<exists>s' it d. list_insert s v pos x = Some (Inr (s', it))
      \<and> versions s' = versions s @ [d]"
    if "xs = [] \<or> (\<exists>ys. seg (heap s) b ys pos)"
  proof -
    from list_insert_spec [OF assms(1) v sg', of pos x] obtain r where
      r: "list_insert s v pos x = Some r"
      "\<forall>e. r = Inl e \<longrightarrow> b \<noteq> None \<and> (\<forall>ys. \<not> seg (heap s) b ys pos)"
      "\<forall>s' it. r = Inr (s', it) \<longrightarrow> (\<exists>d. versions s' = versions s @ [d])"
      unfolding b by (fastforce split: sum.splits)
    show ?thesis
    proof (cases r)
      case (Inl e)
      with r(2) that empty_iff show ?thesis by auto
    next
      case (Inr t)
      with r(1,3) show ?thesis by (cases t) auto
    qed
  qed
  have era: "\<exists>s' it d. list_erase s v pos = Some (Inr (s', it))
      \<and> versions s' = versions s @ [d]"
    if "xs \<noteq> []" "pos \<noteq> list_end" "\<exists>ys. seg (heap s) b ys pos"
  proof -
    from that(1,2) empty_iff have guard: "\<not> (b = None \<or> pos = None)"
      by (simp add: list_end_def)
    from list_erase_spec [OF assms(1) v sg', of pos] guard obtain r where
      r: "list_erase s v pos = Some r"
      "\<forall>e. r = Inl e \<longrightarrow> (\<forall>ys. \<not> seg (heap s) b ys pos)"
      "\<forall>s' it. r = Inr (s', it) \<longrightarrow> (\<exists>d. versions s' = versions s @ [d])"
      unfolding b by (fastforce split: sum.splits)
    show ?thesis
    proof (cases r)
      case (Inl e)
      with r(2) that(3) show ?thesis by auto
    next
      case (Inr t)
      with r(1,3) show ?thesis by (cases t) auto
    qed
  qed
  have guard: "list_erase s v pos = Some (Inr (s, list_end))" if "xs = [] \<or> pos = list_end"
    using that v empty_iff b by (auto simp: list_erase_def Let_def)
  from push_front_spec [OF assms(1,2), of x] push_back_spec [OF assms(1,2), of x]
    pops ins era guard
  show ?thesis by blast
qed

theorem one_version_appended_witness:
  "wf demo_list \<and> elements demo_list 2 [1, 2] \<and> list_begin demo_list 2 = Inr (Some 2)
   \<and> seg (heap demo_list) (Some 2) [1] (Some 1)
   \<and> (\<exists>s' d. push_front demo_list 2 7 = Some (Inr s') \<and> versions s' = versions demo_list @ [d])
   \<and> (\<exists>s' d. push_back demo_list 2 7 = Some (Inr s') \<and> versions s' = versions demo_list @ [d])
   \<and> (\<exists>s' d. pop_front demo_list 2 = Some (Inr s') \<and> versions s' = versions demo_list @ [d])
   \<and> (\<exists>s' d. pop_back demo_list 2 = Some (Inr s') \<and> versions s' = versions demo_list @ [d])
   \<and> (\<exists>s' it d. list_insert demo_list 2 (Some 1) 7 = Some (Inr (s', it))
         \<and> versions s' = versions demo_list @ [d])
   \<and> (\<exists>s' it d. list_erase demo_list 2 (Some 1) = Some (Inr (s', it))
         \<and> versions s' = versions demo_list @ [d])
   \<and> list_erase demo_list 2 list_end = Some (Inr (demo_list, list_end))"
proof -
  have b: "list_begin demo_list 2 = Inr (Some 2)"
    by (simp add: list_begin_def demo_list_def)
  have sg: "seg (heap demo_list) (Some 2) [1] (Some 1)"
    by (simp add: demo_list_def seg_Cons_iff)
  then have on: "\<exists>ys. seg (heap demo_list) (Some 2) ys (Some 1)" by blast
  from one_version_appended [OF wf_demo_list elements_demo_list(3) b, of 7 "Some 1"]
    one_version_appended [OF wf_demo_list elements_demo_list(3) b, of 7 list_end]
    wf_demo_list elements_demo_list(3) b sg on
  show ?thesis by (simp add: list_end_def)
qed

text \<open>
  Claim C9. \<^verbatim>\<open>push_front(v, x)\<close> makes the version \<^verbatim>\<open>versions() - 1\<close>, and
  \<^verbatim>\<open>pop_front\<close> of that one makes a version with the elements and the size of \<open>v\<close>.
\<close>

theorem push_front_pop_front:
  assumes "wf s" "elements s v xs"
  shows "\<exists>s1 s2. push_front s v x = Some (Inr s1) \<and> versionsNumber s1 = versionsNumber s + 1
      \<and> pop_front s1 (versionsNumber s1 - 1) = Some (Inr s2)
      \<and> versionsNumber s2 = versionsNumber s1 + 1
      \<and> elements s2 (versionsNumber s2 - 1) xs
      \<and> list_size s2 (versionsNumber s2 - 1) = list_size s v"
proof -
  from assms(2) have v: "v < length (versions s)" by (simp add: elements_iff)
  from push_front_spec [OF assms, of x] obtain s1 r1 where s1:
    "push_front s v x = Some (Inr s1)" "wf s1"
    "versions s1 = versions s @ [\<lparr>root = r1, vsize = vsize (versions s ! v) + 1\<rparr>]"
    "seg (heap s1) r1 (x # xs) None"
    by blast
  let ?v1 = "length (versions s)"
  have el1: "elements s1 ?v1 (x # xs)" using s1(3,4) by (simp add: elements_iff)
  from pop_front_spec [OF s1(2) el1] obtain s2 r2 where s2:
    "pop_front s1 ?v1 = Some (Inr s2)"
    "versions s2 = versions s1 @ [\<lparr>root = r2, vsize = vsize (versions s1 ! ?v1) - 1\<rparr>]"
    "seg (heap s2) r2 xs None"
    by blast
  have "elements s2 (length (versions s1)) xs" using s2(2,3) by (simp add: elements_iff)
  moreover have "list_size s2 (length (versions s1)) = list_size s v"
    using s2(2) s1(3) v by (simp add: list_size_def nth_append)
  ultimately show ?thesis using s1(1,3) s2(1,2) by (simp add: versionsNumber_def)
qed

theorem push_front_pop_front_witness:
  "wf demo_list \<and> elements demo_list 2 [1, 2]
   \<and> (\<exists>s1 s2. push_front demo_list 2 7 = Some (Inr s1)
        \<and> versionsNumber s1 = versionsNumber demo_list + 1
        \<and> pop_front s1 (versionsNumber s1 - 1) = Some (Inr s2)
        \<and> versionsNumber s2 = versionsNumber s1 + 1
        \<and> elements s2 (versionsNumber s2 - 1) [1, 2]
        \<and> list_size s2 (versionsNumber s2 - 1) = list_size demo_list 2)"
  using push_front_pop_front [of demo_list 2 "[1, 2]" 7] wf_demo_list elements_demo_list(3)
  by simp

text \<open>
  Claim C10. \<^verbatim>\<open>operator++\<close> never fails: \<^verbatim>\<open>end()\<close> incremented is \<^verbatim>\<open>end()\<close>; a node
  iterator incremented is the iterator of the node's \<^verbatim>\<open>next\<close>; and, starting from
  \<^verbatim>\<open>begin(v)\<close> of a version with elements \<open>xs\<close>, any number \<open>k\<close> of increments yields an
  iterator, which is \<^verbatim>\<open>end()\<close> exactly from \<open>k = length xs\<close> on: the increment of the
  iterator at the last node is \<^verbatim>\<open>end()\<close>.
\<close>

theorem increment_total:
  assumes "elements s v xs" "list_begin s v = Inr b"
  shows "it_incr (heap s) list_end = Inr list_end
       \<and> (\<forall>a nd. heap s a = Some nd \<longrightarrow> it_incr (heap s) (Some a) = Inr (nxt nd))
       \<and> (\<forall>k. \<exists>it. advance (heap s) b k = Inr it \<and> (it = list_end \<longleftrightarrow> length xs \<le> k))"
proof -
  from assms have "seg (heap s) b xs None"
    by (auto simp: elements_def list_end_def)
  from advance_seg [OF this] show ?thesis
    by (simp add: it_incr_def list_end_def)
qed

theorem increment_total_witness:
  "elements demo_list 2 [1, 2] \<and> list_begin demo_list 2 = Inr (Some 2)
   \<and> it_incr (heap demo_list) list_end = Inr list_end
   \<and> heap demo_list 1 = Some \<lparr>val = 2, nxt = None\<rparr>
   \<and> it_incr (heap demo_list) (Some 1) = Inr list_end
   \<and> (\<forall>k. \<exists>it. advance (heap demo_list) (Some 2) k = Inr it
          \<and> (it = list_end \<longleftrightarrow> length [1, 2 :: int] \<le> k))"
proof -
  have b: "list_begin demo_list 2 = Inr (Some 2)"
    by (simp add: list_begin_def demo_list_def)
  have n: "heap demo_list 1 = Some \<lparr>val = 2, nxt = None\<rparr>"
    by (simp add: demo_list_def)
  show ?thesis
    using increment_total [OF elements_demo_list(3) b] elements_demo_list(3) b n
    by (simp add: list_end_def)
qed

end
